theory Spec2Isabelle
  imports Main "HOL-Library.Multiset"
begin

section \<open>Barcode count tables: the merge engine of merge\_bc\_dfs.py\<close>

text \<open>
  The two scripts work on pandas tables. A table is modelled by what the scripts use of
  it: the five key columns \<open>HEADER_COLS\<close> (always present, so a row carries them as a
  tuple) and the remaining count columns, a list of labels with one cell per label in
  every row. A cell is \<open>None\<close> where pandas holds NaN (a value the outer join left
  unset). Counts are unbounded integers; the 64-bit ranges of pandas are not modelled.
  Python exceptions are values of \<open>py_error\<close>.
\<close>

datatype py_error =
    KeyError string
  | IndexError
  | ValueError
  | StopIteration
  | MergeError
  | ZeroDivisionError

text \<open>\<open>HEADER_COLS = ['itam_bc_o', 'itam_umi_o', 'costim_bc_o', 'costim_umi_o', 'sl_num']\<close>\<close>

definition HEADER_COLS :: "string list" where
  "HEADER_COLS = [''itam_bc_o'', ''itam_umi_o'', ''costim_bc_o'', ''costim_umi_o'', ''sl_num'']"

type_synonym key = "string \<times> string \<times> string \<times> string \<times> int"

record dataframe =
  count_cols :: "string list"
  rows :: "(key \<times> int option list) list"

subsection \<open>merge\_dataframes: the outer join on the key columns\<close>

text \<open>
  \<open>pd.merge(df1, df2, on=HEADER_COLS, how='outer')\<close>. Labels that both sides carry
  get the suffixes \<open>_x\<close> (left) and \<open>_y\<close> (right). When the renaming makes two labels
  of one side equal, pandas 2 raises MergeError (older versions only warn). Every left
  row is paired with each right row of the same key, or padded with NaN when there is
  none; right rows whose key the left table lacks follow, padded on the left. pandas
  orders the joined rows by key; no statement below depends on the order of rows before
  the final sort, and the model keeps the left rows first.
\<close>

definition rename_overlap :: "string list \<Rightarrow> string list \<Rightarrow> string \<Rightarrow> string list" where
  "rename_overlap own other suffix = map (\<lambda>c. if c \<in> set other then c @ suffix else c) own"

definition suffix_dups :: "string list \<Rightarrow> string list \<Rightarrow> string list" where
  "suffix_dups orig labels =
     concat (map (\<lambda>i. if labels ! i \<in> set (take i labels) \<and> orig ! i \<notin> set (take i orig)
                         then [labels ! i] else [])
                 [0..<length labels])"

definition matching :: "key \<Rightarrow> (key \<times> int option list) list \<Rightarrow> int option list list" where
  "matching k rs = map snd (filter (\<lambda>r. fst r = k) rs)"

definition join_left :: "nat \<Rightarrow> (key \<times> int option list) list \<Rightarrow> (key \<times> int option list)
                          \<Rightarrow> (key \<times> int option list) list" where
  "join_left n2 rs2 r =
     (case matching (fst r) rs2 of
        [] \<Rightarrow> [(fst r, snd r @ replicate n2 None)]
      | ws \<Rightarrow> map (\<lambda>w. (fst r, snd r @ w)) ws)"

definition outer_rows :: "nat \<Rightarrow> nat \<Rightarrow> (key \<times> int option list) list \<Rightarrow> (key \<times> int option list) list
                           \<Rightarrow> (key \<times> int option list) list" where
  "outer_rows n1 n2 rs1 rs2 =
     concat (map (join_left n2 rs2) rs1) @
     map (\<lambda>r. (fst r, replicate n1 None @ snd r))
         (filter (\<lambda>r. fst r \<notin> set (map fst rs1)) rs2)"

definition merge_dataframes :: "dataframe \<times> dataframe \<Rightarrow> py_error + dataframe" where
  "merge_dataframes pair =
     (let df1 = fst pair; df2 = snd pair;
          llabels = rename_overlap (count_cols df1) (count_cols df2) ''_x'';
          rlabels = rename_overlap (count_cols df2) (count_cols df1) ''_y''
      in if suffix_dups (count_cols df1) llabels @ suffix_dups (count_cols df2) rlabels \<noteq> []
         then Inl MergeError
         else Inr \<lparr> count_cols = llabels @ rlabels,
                    rows = outer_rows (length (count_cols df1)) (length (count_cols df2))
                                      (rows df1) (rows df2) \<rparr>)"

subsection \<open>reduce\_dataframes: the rounds of pairwise merges\<close>

text \<open>\<open>dfs[::2]\<close> and \<open>dfs[1::2]\<close>, and the list of adjacent pairs the source zips from them.\<close>

fun evens :: "'a list \<Rightarrow> 'a list" where
  "evens [] = []"
| "evens [x] = [x]"
| "evens (x # y # xs) = x # evens xs"

fun odds :: "'a list \<Rightarrow> 'a list" where
  "odds [] = []"
| "odds [x] = []"
| "odds (x # y # xs) = y # odds xs"

definition pair_up :: "'a list \<Rightarrow> ('a \<times> 'a) list" where
  "pair_up xs = zip (evens xs) (odds xs)"

text \<open>
  \<open>list(executor.map(merge_dataframes, paired_dfs))\<close>: the results in the order of the
  pairs; the first exception, in that order, is raised to the caller.
\<close>

fun map_merge :: "(dataframe \<times> dataframe) list \<Rightarrow> py_error + dataframe list" where
  "map_merge [] = Inr []"
| "map_merge (p # ps) =
     (case merge_dataframes p of
        Inl e \<Rightarrow> Inl e
      | Inr m \<Rightarrow> (case map_merge ps of Inl e \<Rightarrow> Inl e | Inr ms \<Rightarrow> Inr (m # ms)))"

text \<open>
  The \<open>while True\<close> loop. Its state is \<open>paired_dfs\<close>, \<open>odd_dfs\<close> and \<open>round_num\<close>; the
  fourth argument records what the verbose mode prints in each round, the number of
  pairs handed to \<open>merge_dataframes\<close> and the number of tables after the round
  (\<open>len(paired_dfs)\<close>, \<open>len(merged_dfs)\<close>). The loop has no exit for an empty list of
  tables, so it is a partial function: \<open>None\<close> is a run that never returns.
\<close>

record reduction =
  merged :: dataframe
  rounds :: nat
  trace :: "(nat \<times> nat) list"

partial_function (option) reduce_loop ::
  "(dataframe \<times> dataframe) list \<Rightarrow> dataframe list \<Rightarrow> nat \<Rightarrow> (nat \<times> nat) list
     \<Rightarrow> (py_error + reduction) option" where
  "reduce_loop paired_dfs odd_dfs round_num log =
     (case map_merge paired_dfs of
        Inl e \<Rightarrow> Some (Inl e)
      | Inr merged0 \<Rightarrow>
          (let merged_dfs = (if length odd_dfs > 0 then merged0 @ [last odd_dfs] else merged0);
               odd_dfs1 = (if length odd_dfs > 0 then butlast odd_dfs else odd_dfs);
               log1 = log @ [(length paired_dfs, length merged_dfs)]
           in if length merged_dfs = 1
              then Some (Inr \<lparr> merged = merged_dfs ! 0, rounds = round_num, trace = log1 \<rparr>)
              else if length merged_dfs mod 2 = 1
              then reduce_loop (pair_up merged_dfs) (odd_dfs1 @ [last merged_dfs]) round_num log1
              else reduce_loop (pair_up merged_dfs) odd_dfs1 (round_num + 1) log1))"

declare reduce_loop.simps [code]

definition reduce_dataframes :: "dataframe list \<Rightarrow> (py_error + reduction) option" where
  "reduce_dataframes dfs =
     reduce_loop (pair_up dfs) (if length dfs mod 2 = 1 then [last dfs] else []) 0 []"

subsection \<open>load\_csv\_file: one sample table per input file\<close>

text \<open>
  A row as \<open>pd.read_csv\<close> returns it from a file the decoder wrote: the four sequence
  fields, the sublibrary label \<open>sl_o\<close>, the sublibrary number and the count. An empty
  field of the file is NaN, here \<open>None\<close>. Reading the file itself (a missing file, a file
  without the expected header) is not modelled: the contents are an argument.
\<close>

record csv_row =
  csv_itam_bc_o :: "string option"
  csv_itam_umi_o :: "string option"
  csv_costim_bc_o :: "string option"
  csv_costim_umi_o :: "string option"
  csv_sl_o :: "string option"
  csv_sl_num :: "int option"
  csv_count :: int

text \<open>
  \<open>df.groupby(cols).agg({'count': 'sum'}).reset_index()\<close>: a row with NaN in a grouping
  column is dropped (pandas' default \<open>dropna=True\<close>), the counts of the rows of one key
  are added up, and each key occurs once in the result. \<open>group_sum\<close> takes the rows that
  survive, as pairs of a key and a count. pandas orders the groups by key; the model keeps the
  order in which the keys first occur.
\<close>

fun add_count :: "'k \<Rightarrow> int \<Rightarrow> ('k \<times> int) list \<Rightarrow> ('k \<times> int) list" where
  "add_count k c [] = [(k, c)]"
| "add_count k c (g # gs) = (if fst g = k then (fst g, snd g + c) # gs else g # add_count k c gs)"

definition group_sum :: "('k \<times> int) list \<Rightarrow> ('k \<times> int) list" where
  "group_sum rs = foldl (\<lambda>acc r. add_count (fst r) (snd r) acc) [] rs"

definition csv_key :: "csv_row \<Rightarrow> key option" where
  "csv_key r =
     (case (csv_itam_bc_o r, csv_itam_umi_o r, csv_costim_bc_o r, csv_costim_umi_o r, csv_sl_num r) of
        (Some a, Some b, Some c, Some d, Some n) \<Rightarrow> Some (a, b, c, d, n)
      | _ \<Rightarrow> None)"

definition keyed_rows :: "csv_row list \<Rightarrow> (key \<times> int) list" where
  "keyed_rows rs =
     concat (map (\<lambda>r. case csv_key r of None \<Rightarrow> [] | Some k \<Rightarrow> [(k, csv_count r)]) rs)"

definition load_csv_file :: "(string \<Rightarrow> csv_row list) \<Rightarrow> string \<Rightarrow> dataframe" where
  "load_csv_file read_csv file_name =
     \<lparr> count_cols = [''TCSL234rs_'' @ file_name],
       rows = map (\<lambda>g. (fst g, [Some (snd g)])) (group_sum (keyed_rows (read_csv file_name))) \<rparr>"

subsection \<open>main: load, reduce, fill, total, sort\<close>

text \<open>
  The table \<open>main\<close> returns: in every row the key, the count columns as integers, and
  the columns \<open>total\<close> and \<open>n_samples\<close>. \<open>sort_values(by='total', ascending=False)\<close> leaves the order of rows of
  equal total open; the model sorts stably.
\<close>

record final_row =
  row_key :: key
  row_cells :: "int list"
  row_total :: int
  row_n_samples :: int

record final_df =
  sample_cols :: "string list"
  final_rows :: "final_row list"

definition fillna0 :: "int option list \<Rightarrow> int list" where
  "fillna0 vs = map (\<lambda>v. case v of None \<Rightarrow> 0 | Some n \<Rightarrow> n) vs"

definition sort_desc :: "('a \<Rightarrow> int) \<Rightarrow> 'a list \<Rightarrow> 'a list" where
  "sort_desc by rs = sort_key (\<lambda>r. - by r) rs"

definition finalize :: "dataframe \<Rightarrow> final_df" where
  "finalize merged_df =
     (let filled = map (\<lambda>r. (fst r, fillna0 (snd r))) (rows merged_df);
          with_total = map (\<lambda>r. (fst r, snd r, sum_list (snd r))) filled;
          sorted1 = sort_desc (\<lambda>r. snd (snd r)) with_total;
          with_n = map (\<lambda>r. \<lparr> row_key = fst r, row_cells = fst (snd r), row_total = snd (snd r),
                                   row_n_samples = int (length (filter (\<lambda>v. v > 0) (fst (snd r)))) \<rparr>)
                       sorted1
      in \<lparr> sample_cols = count_cols merged_df, final_rows = sort_desc row_total with_n \<rparr>)"

text \<open>
  \<open>main(file_names, min_merge_count)\<close>. The second argument is the value of
  \<open>--min-merge-count\<close>; the body never reads it.
\<close>

definition main :: "(string \<Rightarrow> csv_row list) \<Rightarrow> string list \<Rightarrow> int \<Rightarrow> (py_error + final_df) option" where
  "main read_csv file_names min_merge_count =
     (let dfs = map (load_csv_file read_csv) file_names
      in case reduce_dataframes dfs of
           None \<Rightarrow> None
         | Some (Inl e) \<Rightarrow> Some (Inl e)
         | Some (Inr red) \<Rightarrow> Some (Inr (finalize (merged red))))"

subsection \<open>Notions used to state the properties of the merge engine\<close>

text \<open>
  The tables a loop state still holds, in their order: the pairs waiting to be merged,
  then the leftover.
\<close>

definition tables_of :: "('a \<times> 'a) list \<Rightarrow> 'a list \<Rightarrow> 'a list" where
  "tables_of paired rest = concat (map (\<lambda>p. [fst p, snd p]) paired) @ rest"

text \<open>
  What the trace of a reduction of \<open>n\<close> tables has to look like: the merges of all rounds
  add up to \<open>n - 1\<close>, the number of tables left after each round falls strictly from
  round to round, is below \<open>n\<close> from the first round on when there was more than one
  table, and is 1 after the last round.
\<close>

definition good_trace :: "nat \<Rightarrow> (nat \<times> nat) list \<Rightarrow> bool" where
  "good_trace n t \<longleftrightarrow>
     t \<noteq> [] \<and> sum_list (map fst t) = n - 1 \<and> sorted_wrt (>) (map snd t) \<and>
     (1 < n \<longrightarrow> (\<forall>s \<in> set (map snd t). s < n)) \<and> last (map snd t) = 1"

text \<open>
  A table is well formed when no key occurs in two rows (what the loader's grouping
  establishes) and every row has one cell per count column.
\<close>

definition table_keys :: "dataframe \<Rightarrow> key set" where
  "table_keys t = set (map fst (rows t))"

definition wf_table :: "dataframe \<Rightarrow> bool" where
  "wf_table t \<longleftrightarrow>
     distinct (map fst (rows t)) \<and> (\<forall>r \<in> set (rows t). length (snd r) = length (count_cols t))"

text \<open>The sum of a count column, an unset cell counting as 0.\<close>

definition cell_value :: "int option \<Rightarrow> int" where
  "cell_value c = (case c of None \<Rightarrow> 0 | Some v \<Rightarrow> v)"

definition col_sum :: "dataframe \<Rightarrow> nat \<Rightarrow> int" where
  "col_sum t i = sum_list (map (\<lambda>r. cell_value (snd r ! i)) (rows t))"

definition col_sums :: "dataframe \<Rightarrow> int list" where
  "col_sums t = map (col_sum t) [0..<length (count_cols t)]"

text \<open>
  The cells a table would have in the joined table of a set of keys \<open>K\<close>: its own, and an
  unset cell in each of its columns for every key of \<open>K\<close> it lacks.
\<close>

definition lookup_cells :: "(key \<times> int option list) list \<Rightarrow> nat \<Rightarrow> key \<Rightarrow> int option list" where
  "lookup_cells rs n k = (case map_of rs k of None \<Rightarrow> replicate n None | Some w \<Rightarrow> w)"

definition table_cells :: "dataframe \<Rightarrow> (key \<times> string \<times> int option) set" where
  "table_cells t =
     set (concat (map (\<lambda>r. map (\<lambda>cv. (fst r, fst cv, snd cv)) (zip (count_cols t) (snd r)))
                      (rows t)))"

definition padded_cells :: "key set \<Rightarrow> dataframe \<Rightarrow> (key \<times> string \<times> int option) set" where
  "padded_cells K t = table_cells t \<union> (K - table_keys t) \<times> (set (count_cols t) \<times> {None})"

definition all_keys :: "dataframe list \<Rightarrow> key set" where
  "all_keys ts = \<Union> (table_keys ` set ts)"

definition joined_cells :: "dataframe list \<Rightarrow> (key \<times> string \<times> int option) set" where
  "joined_cells ts = \<Union> (padded_cells (all_keys ts) ` set ts)"

text \<open>
  A list of sample tables as the loader hands it to the merge engine when every file is
  named once: each table well formed, and no count label in two places.
\<close>

definition wf_samples :: "dataframe list \<Rightarrow> bool" where
  "wf_samples ts \<longleftrightarrow> (\<forall>t \<in> set ts. wf_table t) \<and> distinct (concat (map count_cols ts))"

text \<open>
  Two tables have the same content, whatever the order of their rows and columns: the
  same keys, row for row, the same column labels, and the same value in every cell.
\<close>

definition same_content :: "dataframe \<Rightarrow> dataframe \<Rightarrow> bool" where
  "same_content a b \<longleftrightarrow>
     mset (map fst (rows a)) = mset (map fst (rows b)) \<and>
     mset (count_cols a) = mset (count_cols b) \<and>
     table_cells a = table_cells b"

text \<open>
  A pairing sequence: any way of merging the tables two at a time until one is left, a
  binary tree with the tables at its leaves.
\<close>

datatype pairing = Table dataframe | Merge pairing pairing

fun tables :: "pairing \<Rightarrow> dataframe list" where
  "tables (Table t) = [t]"
| "tables (Merge l r) = tables l @ tables r"

fun run_pairing :: "pairing \<Rightarrow> py_error + dataframe" where
  "run_pairing (Table t) = Inr t"
| "run_pairing (Merge l r) =
     (case run_pairing l of
        Inl e \<Rightarrow> Inl e
      | Inr a \<Rightarrow> (case run_pairing r of Inl e \<Rightarrow> Inl e | Inr b \<Rightarrow> merge_dataframes (a, b)))"

text \<open>The number of calls of \<open>merge_dataframes\<close> a pairing sequence makes.\<close>

fun merges :: "pairing \<Rightarrow> nat" where
  "merges (Table t) = 0"
| "merges (Merge l r) = merges l + merges r + 1"

text \<open>
  The tables \<open>ts\<close> at hand in some round of a reduction of \<open>dfs\<close>: each of them is
  what a pairing sequence returns, and the tables these sequences join are, from left to
  right, the tables \<open>dfs\<close> the reduction started from.
\<close>

definition pairings_of :: "dataframe list \<Rightarrow> dataframe list \<Rightarrow> bool" where
  "pairings_of dfs ts \<longleftrightarrow>
     (\<exists>ps. list_all2 (\<lambda>p t. run_pairing p = Inr t) ps ts \<and> concat (map tables ps) = dfs)"

subsection \<open>Example tables\<close>

text \<open>Three files and what \<open>read_csv\<close> returns for them; every other name is an empty file.\<close>

definition key_1 :: key where "key_1 = (''GGATCAGGA'', ''TCAGGATCAGGATCA'', ''AAAAAAAAA'', ''CCCCCCCCCCCCCCC'', 60)"
definition key_2 :: key where "key_2 = (''GGTTCTGGT'', ''TCAGGATCAGGATCA'', ''AAAAAAAAA'', ''CCCCCCCCCCCCCCC'', 60)"
definition key_3 :: key where "key_3 = (''GGATCAGGA'', ''TCAGGATCAGGATCA'', ''TTTTTTTTT'', ''CCCCCCCCCCCCCCC'', 63)"

definition mk_row :: "key \<Rightarrow> string \<Rightarrow> int \<Rightarrow> csv_row" where
  "mk_row k label n =
     (case k of (a, b, c, d, s) \<Rightarrow>
        \<lparr> csv_itam_bc_o = Some a, csv_itam_umi_o = Some b, csv_costim_bc_o = Some c,
          csv_costim_umi_o = Some d, csv_sl_o = Some label, csv_sl_num = Some s, csv_count = n \<rparr>)"

definition example_files :: "string \<Rightarrow> csv_row list" where
  "example_files name =
     (if name = ''A'' then [mk_row key_1 ''CGTGACGTCGGGAGT'' 1, mk_row key_2 ''CGTGACGTCGGGAGT'' 2]
      else if name = ''B'' then [mk_row key_2 ''CGTGACGTCGGGAGT'' 3, mk_row key_3 ''GGCGGAAGTCCTCGT'' 4]
      else if name = ''C'' then [mk_row key_1 ''CGTGACGTCGGGAGT'' 5, mk_row key_1 ''CGTGACGTCGGGACT'' 2]
      else [])"

text \<open>The tables loaded from the example files, and results the statements below name.\<close>

definition example_out :: final_df where
  "example_out =
     \<lparr> sample_cols = [''TCSL234rs_A'', ''TCSL234rs_B''],
       final_rows =
         [\<lparr> row_key = key_2, row_cells = [2, 3], row_total = 5, row_n_samples = 2 \<rparr>,
          \<lparr> row_key = key_3, row_cells = [0, 4], row_total = 4, row_n_samples = 1 \<rparr>,
          \<lparr> row_key = key_1, row_cells = [1, 0], row_total = 1, row_n_samples = 1 \<rparr>] \<rparr>"

definition table_A :: dataframe where "table_A = load_csv_file example_files ''A''"
definition table_B :: dataframe where "table_B = load_csv_file example_files ''B''"
definition table_C :: dataframe where "table_C = load_csv_file example_files ''C''"
definition table_A_x :: dataframe where "table_A_x = load_csv_file example_files ''A_x''"

definition engine_AAAx :: dataframe where
  "engine_AAAx = \<lparr> count_cols = [''TCSL234rs_A_x_x'', ''TCSL234rs_A_y'', ''TCSL234rs_A_x_y''],
                    rows = [(key_1, [Some 1, Some 1, None]), (key_2, [Some 2, Some 2, None])] \<rparr>"

definition other_AAAx :: dataframe where
  "other_AAAx = \<lparr> count_cols = [''TCSL234rs_A_x'', ''TCSL234rs_A_y'', ''TCSL234rs_A_x''],
                   rows = [(key_1, [Some 1, Some 1, None]), (key_2, [Some 2, Some 2, None])] \<rparr>"

section \<open>The decoder and aggregator of itam\_costim\_bc\_regex.py\<close>

subsection \<open>The fuzzy pattern\<close>

text \<open>
  \<open>compile_bc_regex\<close> builds one pattern for the third-party \<open>regex\<close> module: a prefix
  anchor, the groups \<open>itam_bc_o\<close> and \<open>itam_umi_o\<close> of fixed shape, a junction anchor, the
  free group \<open>costim_bc_o\<close>, one of six sublibrary literals, each in a group of its own,
  the free group \<open>costim_umi_o\<close> and a suffix anchor, the whole under \<open>{e<=8}\<close>: at most
  \<open>MAX_MATCH_DIST\<close> insertions, deletions and substitutions in all. The pattern is a
  sequence of segments, each a list of one-character atoms; the alternation of the
  sublibraries is the choice of the sixth segment.
\<close>

datatype atom = Lit char | AnyChar | OneOf string

fun accepts :: "atom \<Rightarrow> char \<Rightarrow> bool" where
  "accepts (Lit a) c = (a = c)"
| "accepts AnyChar c = (c \<noteq> CHR 0x0A)"
| "accepts (OneOf cs) c = (c \<in> set cs)"

text \<open>The pieces of fixed shape are written as in the source: \<open>.\<close> is any character.\<close>

definition shape :: "string \<Rightarrow> atom list" where
  "shape s = map (\<lambda>c. if c = CHR ''.'' then AnyChar else Lit c) s"

definition pre_str :: string where "pre_str = ''ACCCAGGTCCT''"
definition itam_bc :: string where "itam_bc = ''GG.TC.GG.''"
definition itam_umi :: string where "itam_umi = ''TC.GG.TC.GG.TC.''"
definition jct_str :: string where "jct_str = ''GGGCCT''"
definition post_str :: string where "post_str = ''TCGGCTGCTTTA''"
definition costim_bc :: "atom list" where "costim_bc = replicate 9 (OneOf ''ATGCN'')"
definition costim_umi :: "atom list" where "costim_umi = replicate 15 (OneOf ''ATGCN'')"

definition SL_SEQS :: "(string \<times> string) list" where
  "SL_SEQS = [(''90'', ''GGTTCT''), (''30'', ''GCGCCACTGCACCTA''), (''31'', ''TTGGCTGGGAGAGCG''),
              (''34'', ''CCACGGCCTGGAACA''), (''60'', ''CGTGACGTCGGGAGT''), (''63'', ''GGCGGAAGTCCTCGT'')]"

definition MAX_MATCH_DIST :: nat where "MAX_MATCH_DIST = 8"

definition MIN_COUNT :: int where "MIN_COUNT = 1"

text \<open>The names of the segments (an anchor has none) and the segments for one sublibrary.\<close>

definition segment_names :: "string \<Rightarrow> string option list" where
  "segment_names sl_id =
     [None, Some ''itam_bc_o'', Some ''itam_umi_o'', None, Some ''costim_bc_o'',
      Some (''sublibrary_'' @ sl_id), Some ''costim_umi_o'', None]"

definition segments :: "string \<Rightarrow> atom list list" where
  "segments sl_seq =
     [shape pre_str, shape itam_bc, shape itam_umi, shape jct_str, costim_bc,
      shape sl_seq, costim_umi, shape post_str]"

text \<open>
  What the module documents of a fuzzy match, as a relation: \<open>aligned as s k\<close> holds
  when the text \<open>s\<close> is the atoms \<open>as\<close> up to \<open>k\<close> errors, an error being a character of
  the text in place of another (substitution), an atom without a character (deletion) or
  a character without an atom (insertion). A match of the segments splits the matched
  text into one piece per segment; the piece of a group is what the group captures.
\<close>

inductive aligned :: "atom list \<Rightarrow> string \<Rightarrow> nat \<Rightarrow> bool" where
  al_end: "aligned [] [] 0"
| al_exact: "accepts a c \<Longrightarrow> aligned as s k \<Longrightarrow> aligned (a # as) (c # s) k"
| al_subst: "aligned as s k \<Longrightarrow> aligned (a # as) (c # s) (Suc k)"
| al_delete: "aligned as s k \<Longrightarrow> aligned (a # as) s (Suc k)"
| al_insert: "aligned as s k \<Longrightarrow> aligned as (c # s) (Suc k)"

inductive seg_aligned :: "atom list list \<Rightarrow> string list \<Rightarrow> nat \<Rightarrow> bool" where
  seg_end: "seg_aligned [] [] 0"
| seg_step: "aligned as x m \<Longrightarrow> seg_aligned segs xs n \<Longrightarrow>
             seg_aligned (as # segs) (x # xs) (m + n)"

text \<open>
  \<open>fuzzy_match sl s caps\<close>: the pattern with the literal of sublibrary \<open>sl\<close> matches at
  the start of \<open>s\<close> within the budget, with the pieces \<open>caps\<close>.
\<close>

definition fuzzy_match :: "string \<times> string \<Rightarrow> string \<Rightarrow> string list \<Rightarrow> bool" where
  "fuzzy_match sl s caps \<longleftrightarrow>
     (\<exists>k rest. k \<le> MAX_MATCH_DIST \<and> seg_aligned (segments (snd sl)) caps k \<and> s = concat caps @ rest)"

text \<open>
  Which of the matches within the budget the module returns is left to its search. The
  model searches with a growing budget, 0 errors first, and for each budget tries the
  sublibraries in the order of \<open>SL_SEQS\<close> and, at every atom, the exact step, then a
  substitution, an insertion, a deletion. A branch is given up as soon as the text that
  is left is too short for the atoms that are left. \<open>push\<close> adds a character of the text
  to the piece of the current segment.
\<close>

definition push :: "char \<Rightarrow> string list \<Rightarrow> string list" where
  "push c caps = (case caps of [] \<Rightarrow> [[c]] | x # xs \<Rightarrow> (c # x) # xs)"

function fm :: "atom list \<Rightarrow> atom list list \<Rightarrow> string \<Rightarrow> nat \<Rightarrow> string list option" where
  "fm [] [] s b = Some [[]]"
| "fm [] (seg # segs) s b = map_option (\<lambda>caps. [] # caps) (fm seg segs s b)"
| "fm (a # as) segs s b =
     (if length s + b < length (a # as) + length (concat segs) then None
      else case s of
        [] \<Rightarrow> (if b = 0 then None else fm as segs [] (b - 1))
      | c # cs \<Rightarrow>
          (case (if accepts a c then map_option (push c) (fm as segs cs b) else None) of
             Some r \<Rightarrow> Some r
           | None \<Rightarrow>
               (if b = 0 then None
                else case map_option (push c) (fm as segs cs (b - 1)) of
                       Some r \<Rightarrow> Some r
                     | None \<Rightarrow>
                         (case map_option (push c) (fm (a # as) segs cs (b - 1)) of
                            Some r \<Rightarrow> Some r
                          | None \<Rightarrow> fm as segs s (b - 1)))))"
  by pat_completeness auto
termination
  by (relation "measure (\<lambda>(as, segs, s, b). length as + length (concat segs) + length segs + length s)") auto

declare fm.simps [simp del]

definition fm_segments :: "atom list list \<Rightarrow> string \<Rightarrow> nat \<Rightarrow> string list option" where
  "fm_segments segs s b = (case segs of [] \<Rightarrow> Some [] | seg # rest \<Rightarrow> fm seg rest s b)"

fun first_some :: "('a \<Rightarrow> 'b option) \<Rightarrow> 'a list \<Rightarrow> 'b option" where
  "first_some f [] = None"
| "first_some f (x # xs) = (case f x of Some r \<Rightarrow> Some r | None \<Rightarrow> first_some f xs)"

definition try_sl :: "string \<Rightarrow> nat \<Rightarrow> string \<times> string \<Rightarrow> ((string \<times> string) \<times> string list) option" where
  "try_sl s b sl = map_option (\<lambda>caps. (sl, caps)) (fm_segments (segments (snd sl)) s b)"

definition bc_match :: "string \<Rightarrow> ((string \<times> string) \<times> string list) option" where
  "bc_match s = first_some (\<lambda>b. first_some (try_sl s b) SL_SEQS) [0..<Suc MAX_MATCH_DIST]"

text \<open>
  The compiled pattern as the script uses it: \<open>match(seq_str)\<close>, which is \<open>None\<close> or
  gives the \<open>groupdict()\<close> of the match, every named group with its text or \<open>None\<close> for a
  sublibrary that was not the one matched, and \<open>groupindex\<close>, the names of the groups.
\<close>

record bc_regex =
  match_groupdict :: "string \<Rightarrow> (string \<times> string option) list option"
  groupindex :: "string list"

definition group_names :: "string list" where
  "group_names =
     [''itam_bc_o'', ''itam_umi_o'', ''costim_bc_o''] @
     map (\<lambda>sl. ''sublibrary_'' @ fst sl) SL_SEQS @ [''costim_umi_o'']"

definition named_captures :: "string \<Rightarrow> string list \<Rightarrow> (string \<times> string) list" where
  "named_captures sl_id caps =
     concat (map (\<lambda>nc. case fst nc of None \<Rightarrow> [] | Some n \<Rightarrow> [(n, snd nc)])
                 (zip (segment_names sl_id) caps))"

definition groupdict_of :: "(string \<times> string) \<times> string list \<Rightarrow> (string \<times> string option) list" where
  "groupdict_of m = map (\<lambda>n. (n, map_of (named_captures (fst (fst m)) (snd m)) n)) group_names"

definition compile_bc_regex :: bc_regex where
  "compile_bc_regex =
     \<lparr> match_groupdict = (\<lambda>s. map_option groupdict_of (bc_match s)), groupindex = group_names \<rparr>"

subsection \<open>Python values, dictionaries, \<open>str.split\<close> and \<open>int\<close>\<close>

datatype pyval = PyNone | PyStr string | PyInt int

text \<open>A dictionary in insertion order. \<open>d[k] = v\<close> keeps the place of a key that is there.\<close>

type_synonym pydict = "(string \<times> pyval) list"

fun dict_set :: "string \<Rightarrow> pyval \<Rightarrow> pydict \<Rightarrow> pydict" where
  "dict_set k v [] = [(k, v)]"
| "dict_set k v (e # d) = (if fst e = k then (k, v) # d else e # dict_set k v d)"

definition dict_del :: "string \<Rightarrow> pydict \<Rightarrow> pydict" where
  "dict_del k d = filter (\<lambda>e. fst e \<noteq> k) d"

definition dict_get :: "pydict \<Rightarrow> string \<Rightarrow> pyval" where
  "dict_get d k = (case map_of d k of None \<Rightarrow> PyNone | Some v \<Rightarrow> v)"

text \<open>
  \<open>line.split()\<close>: the maximal runs of characters that are not whitespace. The ASCII
  whitespace of Python is modelled (tab, line feed, vertical tab, form feed, carriage
  return, the four separators 0x1C to 0x1F, space).
\<close>

definition is_space :: "char \<Rightarrow> bool" where
  "is_space c \<longleftrightarrow> c \<in> set [CHR 0x09, CHR 0x0A, CHR 0x0B, CHR 0x0C, CHR 0x0D,
                              CHR 0x1C, CHR 0x1D, CHR 0x1E, CHR 0x1F, CHR 0x20]"

fun split_ws :: "string \<Rightarrow> string \<Rightarrow> string list" where
  "split_ws cur [] = (if cur = [] then [] else [cur])"
| "split_ws cur (c # cs) =
     (if is_space c then (if cur = [] then split_ws [] cs else cur # split_ws [] cs)
      else split_ws (cur @ [c]) cs)"

definition py_split :: "string \<Rightarrow> string list" where
  "py_split line = split_ws [] line"

text \<open>
  \<open>int(s)\<close> on a string without surrounding whitespace: an optional sign, then decimal
  digits, single underscores allowed between digits; anything else is a ValueError
  (\<open>None\<close> here). Digits outside ASCII are not modelled.
\<close>

definition is_digit :: "char \<Rightarrow> bool" where
  "is_digit c \<longleftrightarrow> c \<in> set ''0123456789''"

definition digit_val :: "char \<Rightarrow> int" where
  "digit_val c = int (of_char c) - 48"

fun well_grouped :: "string \<Rightarrow> bool" where
  "well_grouped [] = False"
| "well_grouped [c] = is_digit c"
| "well_grouped (c # d # cs) =
     (is_digit c \<and> (if d = CHR ''_'' then well_grouped cs else well_grouped (d # cs)))"

definition digits_int :: "string \<Rightarrow> int option" where
  "digits_int s =
     (if well_grouped s
      then Some (foldl (\<lambda>n c. 10 * n + digit_val c) 0 (filter (\<lambda>c. c \<noteq> CHR ''_'') s))
      else None)"

definition py_int :: "string \<Rightarrow> int option" where
  "py_int s =
     (case s of
        [] \<Rightarrow> None
      | c # cs \<Rightarrow>
          if c = CHR ''+'' then digits_int cs
          else if c = CHR ''-'' then map_option uminus (digits_int cs)
          else digits_int s)"

subsection \<open>process\_bc\_seq\_line\<close>

definition starts_with :: "string \<Rightarrow> string \<Rightarrow> bool" where
  "starts_with p s \<longleftrightarrow> take (length p) s = p"

text \<open>\<open>key.split('_')[-1]\<close>: what follows the last underscore.\<close>

definition last_field :: "string \<Rightarrow> string" where
  "last_field s = rev (takeWhile (\<lambda>c. c \<noteq> CHR ''_'') (rev s))"

definition process_bc_seq_line :: "bc_regex \<Rightarrow> string \<Rightarrow> int \<Rightarrow> py_error + pydict option" where
  "process_bc_seq_line bc_regex_compiled seq_str line_count =
     (case match_groupdict bc_regex_compiled seq_str of
        None \<Rightarrow> Inr None
      | Some groupdict \<Rightarrow>
          (let match_dict = map (\<lambda>g. (fst g, case snd g of None \<Rightarrow> PyNone | Some t \<Rightarrow> PyStr t)) groupdict;
               sublibrary_keys = filter (starts_with ''sublibrary_'') (map fst match_dict)
           in case filter (\<lambda>key. dict_get match_dict key \<noteq> PyNone) sublibrary_keys of
                [] \<Rightarrow> Inl StopIteration
              | sublibrary_key # _ \<Rightarrow>
                  (let sublibrary_value = last_field sublibrary_key;
                       sublibrary_string = dict_get match_dict sublibrary_key;
                       match_dict1 = foldl (\<lambda>d key. dict_del key d) match_dict sublibrary_keys
                   in case py_int sublibrary_value of
                        None \<Rightarrow> Inl ValueError
                      | Some sl_num \<Rightarrow>
                          Inr (Some (dict_set ''count'' (PyInt line_count)
                                      (dict_set ''sl_num'' (PyInt sl_num)
                                        (dict_set ''sl_o'' sublibrary_string match_dict1)))))))"

subsection \<open>The loop of main over the input lines\<close>

text \<open>
  \<open>stats\<close> is a \<open>defaultdict(int)\<close>: \<open>stats[k] += v\<close> adds to the entry, which is made
  with 0 when it is not there. \<open>stat\<close> reads an entry without making it.
\<close>

type_synonym stats = "(string \<times> int) list"

fun bump :: "string \<Rightarrow> int \<Rightarrow> stats \<Rightarrow> stats" where
  "bump k v [] = [(k, v)]"
| "bump k v (e # st) = (if fst e = k then (k, snd e + v) # st else e # bump k v st)"

definition stat :: "stats \<Rightarrow> string \<Rightarrow> int" where
  "stat st k = (case map_of st k of None \<Rightarrow> 0 | Some v \<Rightarrow> v)"

record decoder_state =
  bc_table_list :: "pydict list"
  stats_of :: stats
  no_counts :: "bool option"
  stderr :: "string list"

definition warning :: string where
  "warning = ''Warning: input appears to be seqs only instead of unique counts.'' @ [CHR 0x0A] @
             ''We will assume each seq is 1 count.''"

text \<open>
  The part of an iteration after \<open>line_count\<close> and \<open>seq_str\<close> are known. \<open>keep_bc\<close> is the
  module constant \<open>KEEP_BC\<close>. A step returns the state it reached and the exception that
  ended it, if one did.
\<close>

definition count_line :: "bool \<Rightarrow> bc_regex \<Rightarrow> decoder_state \<Rightarrow> int \<Rightarrow> string
                          \<Rightarrow> decoder_state \<times> py_error option" where
  "count_line keep_bc rx st line_count seq_str =
     (let st1 = st \<lparr> stats_of := bump ''total_counts'' line_count (bump ''total_lines'' 1 (stats_of st)) \<rparr>
      in if line_count < MIN_COUNT
         then (st1 \<lparr> stats_of := bump ''skipped_counts'' line_count
                                    (bump ''skipped_lines'' 1 (stats_of st1)) \<rparr>, None)
         else case process_bc_seq_line rx seq_str line_count of
                Inl e \<Rightarrow> (st1, Some e)
              | Inr res \<Rightarrow>
                  (let match_dict =
                         (case res of
                            None \<Rightarrow> dict_set ''count'' (PyInt line_count)
                                      (map (\<lambda>key. (key, PyNone)) (groupindex rx))
                          | Some d \<Rightarrow> d);
                       st2 = (case res of
                                None \<Rightarrow> st1 \<lparr> stats_of := bump ''unmatched_counts'' line_count
                                                  (bump ''unmatched_lines'' 1 (stats_of st1)) \<rparr>
                              | Some d \<Rightarrow> st1 \<lparr> stats_of := bump ''matched_counts'' line_count
                                                  (bump ''matched_lines'' 1 (stats_of st1)) \<rparr>);
                       match_dict1 = (if keep_bc then dict_set ''bc_region'' (PyStr seq_str) match_dict
                                      else match_dict)
                   in (st2 \<lparr> bc_table_list := bc_table_list st2 @ [match_dict1] \<rparr>, None)))"

definition step :: "bool \<Rightarrow> bc_regex \<Rightarrow> decoder_state \<Rightarrow> string \<Rightarrow> decoder_state \<times> py_error option" where
  "step keep_bc rx st line =
     (let line_parts = py_split line
      in if length line_parts = 1
         then count_line keep_bc rx
                (st \<lparr> no_counts := Some True,
                      stderr := (if no_counts st \<noteq> Some True then stderr st @ [warning] else stderr st) \<rparr>)
                1 (line_parts ! 0)
         else case line_parts of
                [] \<Rightarrow> (st, Some IndexError)
              | w # _ \<Rightarrow>
                  (case py_int w of
                     None \<Rightarrow> (st, Some ValueError)
                   | Some line_count \<Rightarrow>
                       count_line keep_bc rx (st \<lparr> no_counts := Some False \<rparr>) line_count (line_parts ! 1)))"

fun run_lines :: "bool \<Rightarrow> bc_regex \<Rightarrow> decoder_state \<Rightarrow> string list \<Rightarrow> decoder_state \<times> py_error option" where
  "run_lines keep_bc rx st [] = (st, None)"
| "run_lines keep_bc rx st (line # ls) =
     (case step keep_bc rx st line of
        (st', Some e) \<Rightarrow> (st', Some e)
      | (st', None) \<Rightarrow> run_lines keep_bc rx st' ls)"

subsection \<open>The table: DataFrame, groupby, sort, column selection\<close>

text \<open>
  \<open>pd.DataFrame(bc_table_list)\<close>: the columns are the keys of the dictionaries in the
  order in which they first occur, and a row holds NaN (\<open>PyNone\<close>) where its dictionary
  lacks a key.
\<close>

record bc_frame =
  frame_cols :: "string list"
  frame_rows :: "pyval list list"

fun uniq :: "'a list \<Rightarrow> 'a list" where
  "uniq [] = []"
| "uniq (x # xs) = x # filter (\<lambda>y. y \<noteq> x) (uniq xs)"

definition frame_of_dicts :: "pydict list \<Rightarrow> bc_frame" where
  "frame_of_dicts ds =
     (let cols = uniq (concat (map (map fst) ds))
      in \<lparr> frame_cols = cols, frame_rows = map (\<lambda>d. map (dict_get d) cols) ds \<rparr>)"

definition cell :: "string list \<Rightarrow> pyval list \<Rightarrow> string \<Rightarrow> pyval" where
  "cell cols row c = dict_get (zip cols row) c"

definition count_int :: "pyval \<Rightarrow> int" where
  "count_int v = (case v of PyInt n \<Rightarrow> n | _ \<Rightarrow> 0)"

text \<open>
  \<open>df.groupby(by).agg({'count': 'sum'}).reset_index()\<close>: KeyError for a grouping column
  the table lacks; rows with NaN or None in a grouping column are dropped; one row per
  key, with the sum of its counts.
\<close>

definition groupby_sum :: "string list \<Rightarrow> bc_frame \<Rightarrow> py_error + bc_frame" where
  "groupby_sum by df =
     (case filter (\<lambda>c. c \<notin> set (frame_cols df)) (by @ [''count'']) of
        c # _ \<Rightarrow> Inl (KeyError c)
      | [] \<Rightarrow>
          (let keyed = map (\<lambda>row. (map (cell (frame_cols df) row) by,
                                    count_int (cell (frame_cols df) row ''count'')))
                           (filter (\<lambda>row. PyNone \<notin> set (map (cell (frame_cols df) row) by))
                                   (frame_rows df))
           in Inr \<lparr> frame_cols = by @ [''count''],
                     frame_rows = map (\<lambda>g. fst g @ [PyInt (snd g)]) (group_sum keyed) \<rparr>))"

definition sort_by_count :: "bc_frame \<Rightarrow> bc_frame" where
  "sort_by_count df =
     df \<lparr> frame_rows := sort_desc (\<lambda>row. count_int (cell (frame_cols df) row ''count'')) (frame_rows df) \<rparr>"

definition select_cols :: "string list \<Rightarrow> bc_frame \<Rightarrow> py_error + bc_frame" where
  "select_cols header df =
     (case filter (\<lambda>c. c \<notin> set (frame_cols df)) header of
        c # _ \<Rightarrow> Inl (KeyError c)
      | [] \<Rightarrow> Inr \<lparr> frame_cols = header,
                    frame_rows = map (\<lambda>row. map (cell (frame_cols df) row) header) (frame_rows df) \<rparr>)"

subsection \<open>main of the decoder\<close>

text \<open>
  What a run leaves behind: the messages of the loop on the error stream, the table
  written to the output (\<open>None\<close> when the run ended before \<open>to_csv\<close>), the counters, the
  entries of the report that were printed, and the exception that ended the run, if one
  did. The percentages of the report are floating point and not modelled, but for the
  division by zero they can raise.
\<close>

record decoder_run =
  run_stderr :: "string list"
  run_stdout :: "bc_frame option"
  run_stats :: stats
  run_report :: "stats option"
  run_error :: "py_error option"

text \<open>\<open>'lines' in key\<close>\<close>

fun contains :: "string \<Rightarrow> string \<Rightarrow> bool" where
  "contains p [] = (p = [])"
| "contains p (c # cs) = (starts_with p (c # cs) \<or> contains p cs)"

fun print_stats :: "stats \<Rightarrow> stats \<Rightarrow> stats \<times> py_error option" where
  "print_stats all [] = ([], None)"
| "print_stats all (e # es) =
     (if (if contains ''lines'' (fst e) then stat all ''total_lines'' else stat all ''total_counts'') = 0
      then ([], Some ZeroDivisionError)
      else (case print_stats all es of (printed, err) \<Rightarrow> (e # printed, err)))"

definition header_cols :: "bool \<Rightarrow> string list" where
  "header_cols keep_bc =
     [''count'', ''itam_bc_o'', ''itam_umi_o'', ''costim_bc_o'', ''costim_umi_o'', ''sl_o'', ''sl_num''] @
     (if keep_bc then [''bc_region''] else [])"

definition make_table :: "bool \<Rightarrow> pydict list \<Rightarrow> py_error + bc_frame" where
  "make_table keep_bc table_list =
     (let df = frame_of_dicts table_list; header = header_cols keep_bc
      in if \<not> keep_bc
         then (case groupby_sum (tl header) df of
                 Inl e \<Rightarrow> Inl e
               | Inr grouped \<Rightarrow> select_cols header (sort_by_count grouped))
         else select_cols header df)"

definition decoder_main_with :: "bool \<Rightarrow> bc_regex \<Rightarrow> string list \<Rightarrow> decoder_run" where
  "decoder_main_with keep_bc rx lines =
     (case run_lines keep_bc rx
             \<lparr> bc_table_list = [], stats_of = [], no_counts = None, stderr = [] \<rparr> lines of
        (st, Some e) \<Rightarrow>
          \<lparr> run_stderr = stderr st, run_stdout = None, run_stats = stats_of st,
            run_report = None, run_error = Some e \<rparr>
      | (st, None) \<Rightarrow>
          (case make_table keep_bc (bc_table_list st) of
             Inl e \<Rightarrow>
               \<lparr> run_stderr = stderr st, run_stdout = None, run_stats = stats_of st,
                 run_report = None, run_error = Some e \<rparr>
           | Inr df \<Rightarrow>
               (let stats1 = bump ''merged_lines'' (int (length (frame_rows df))) (stats_of st)
                in case print_stats stats1 stats1 of
                     (printed, err) \<Rightarrow>
                       \<lparr> run_stderr = stderr st, run_stdout = Some df, run_stats = stats1,
                         run_report = Some printed, run_error = err \<rparr>)))"

text \<open>\<open>main\<close> of the decoder, with \<open>KEEP_BC = False\<close> and the compiled pattern.\<close>

definition decoder_main :: "string list \<Rightarrow> decoder_run" where
  "decoder_main lines = decoder_main_with False compile_bc_regex lines"

text \<open>Example sequences: an exact read of sublibrary 90 and one of sublibrary 60.\<close>

definition seq90 :: string where
  "seq90 = ''ACCCAGGTCCT'' @ ''GGATCAGGA'' @ ''TCAGGATCAGGATCA'' @ ''GGGCCT'' @ ''TCAGGTAGT'' @
           ''GGTTCT'' @ ''ATGTTTAAGTCGAAT'' @ ''TCGGCTGCTTTA''"

definition seq60 :: string where
  "seq60 = ''ACCCAGGTCCT'' @ ''GGATCAGGA'' @ ''TCAGGATCAGGATCA'' @ ''GGGCCT'' @ ''TCAGGTAGT'' @
           ''CGTGACGTCGGGAGT'' @ ''ATGTTTAAGTCGAAT'' @ ''TCGGCTGCTTTA''"

definition sl_number :: "string \<times> string \<Rightarrow> int" where
  "sl_number sl = (case py_int (fst sl) of None \<Rightarrow> 0 | Some n \<Rightarrow> n)"

definition decoded :: "string \<times> string \<Rightarrow> string list \<Rightarrow> int \<Rightarrow> pydict" where
  "decoded sl caps line_count =
     [(''itam_bc_o'', PyStr (caps ! 1)), (''itam_umi_o'', PyStr (caps ! 2)),
      (''costim_bc_o'', PyStr (caps ! 4)), (''costim_umi_o'', PyStr (caps ! 6)),
      (''sl_o'', PyStr (caps ! 5)), (''sl_num'', PyInt (sl_number sl)),
      (''count'', PyInt line_count)]"

definition key_cols :: "string list" where
  "key_cols = [''itam_bc_o'', ''itam_umi_o'', ''costim_bc_o'', ''costim_umi_o'', ''sl_o'', ''sl_num'']"

definition complete_record :: "pydict \<Rightarrow> bool" where
  "complete_record d \<longleftrightarrow> PyNone \<notin> set (map (dict_get d) key_cols)"

definition count_of :: "pydict \<Rightarrow> int" where
  "count_of d = count_int (dict_get d ''count'')"


text \<open>
  The record the loop makes for a line the pattern does not match: every group of the
  pattern with \<open>None\<close>, and the count.
\<close>

definition null_record :: "int \<Rightarrow> pydict" where
  "null_record line_count =
     dict_set ''count'' (PyInt line_count) (map (\<lambda>key. (key, PyNone)) (groupindex compile_bc_regex))"

text \<open>The sum of the counts that a list of keyed counts holds for one key.\<close>

definition key_total :: "'k \<Rightarrow> ('k \<times> int) list \<Rightarrow> int" where
  "key_total k rs = sum_list (map snd (filter (\<lambda>r. fst r = k) rs))"

text \<open>The grouping key of a record: its values in the six columns the table is grouped by.\<close>

definition record_key :: "pydict \<Rightarrow> pyval list" where
  "record_key d = map (dict_get d) key_cols"

text \<open>
  The weight the loop reads from a line: 1 for a line of one field, the integer of the
  first field otherwise.
\<close>

definition line_weight :: "string \<Rightarrow> int" where
  "line_weight line =
     (case py_split line of
        [] \<Rightarrow> 0
      | [seq_str] \<Rightarrow> 1
      | w # _ \<Rightarrow> (case py_int w of None \<Rightarrow> 0 | Some line_count \<Rightarrow> line_count))"

text \<open>\<open>bc_table_list\<close> at the end of the loop of \<open>main\<close>.\<close>

definition decoder_records :: "string list \<Rightarrow> pydict list" where
  "decoder_records lines =
     bc_table_list (fst (run_lines False compile_bc_regex
        \<lparr> bc_table_list = [], stats_of = [], no_counts = None, stderr = [] \<rparr> lines))"

text \<open>
  What the loop keeps true of its state: every record of \<open>bc_table_list\<close> is decoded from
  a match or is the record of an unmatched line, and the counters of matched, unmatched
  and skipped counts account for every count read.
\<close>

definition tallied :: "decoder_state \<Rightarrow> bool" where
  "tallied st \<longleftrightarrow>
     (\<forall>d \<in> set (bc_table_list st).
        (\<exists>sl caps n. sl \<in> set SL_SEQS \<and> d = decoded sl caps n) \<or> (\<exists>n. d = null_record n)) \<and>
     stat (stats_of st) ''matched_counts'' =
       sum_list (map count_of (filter complete_record (bc_table_list st))) \<and>
     stat (stats_of st) ''unmatched_counts'' =
       sum_list (map count_of (filter (\<lambda>d. \<not> complete_record d) (bc_table_list st))) \<and>
     stat (stats_of st) ''total_counts'' =
       stat (stats_of st) ''skipped_counts'' + stat (stats_of st) ''matched_counts'' +
       stat (stats_of st) ''unmatched_counts''"

text \<open>
  Example inputs and the tables \<open>main\<close> writes for them: two weighted reads of sublibrary
  90, an unmatched line and a read of sublibrary 60 without a weight; and a matched line
  with an unmatched one.
\<close>

definition example_lines :: "string list" where
  "example_lines = [''5 '' @ seq90, ''3 ACGTACGT'', ''2 '' @ seq90, seq60]"

definition example_table :: bc_frame where
  "example_table =
     \<lparr> frame_cols = [''count'', ''itam_bc_o'', ''itam_umi_o'', ''costim_bc_o'',
                      ''costim_umi_o'', ''sl_o'', ''sl_num''],
       frame_rows =
         [[PyInt 7, PyStr ''GGATCAGGA'', PyStr ''TCAGGATCAGGATCA'', PyStr ''TCAGGTAGT'',
           PyStr ''ATGTTTAAGTCGAAT'', PyStr ''GGTTCT'', PyInt 90],
          [PyInt 1, PyStr ''GGATCAGGA'', PyStr ''TCAGGATCAGGATCA'', PyStr ''TCAGGTAGT'',
           PyStr ''ATGTTTAAGTCGAAT'', PyStr ''CGTGACGTCGGGAGT'', PyInt 60]] \<rparr>"



subsection \<open>All matches within the budget\<close>

text \<open>
  \<open>all_matches\<close> lists the pieces of every match of the segments at the start of a text
  within a budget, not only the first the search of \<open>fm\<close> finds: every alignment the
  relation \<open>seg_aligned\<close> allows is in the list. It serves to show what any search that
  returns a match within the budget must capture from a given text.
\<close>

function all_matches :: "atom list \<Rightarrow> atom list list \<Rightarrow> string \<Rightarrow> nat \<Rightarrow> string list list" where
  "all_matches [] segs s b =
     (case segs of
        [] \<Rightarrow> [[[]]]
      | seg # rest \<Rightarrow> map (\<lambda>caps. [] # caps) (all_matches seg rest s b)) @
     (case s of
        [] \<Rightarrow> []
      | c # cs \<Rightarrow> if b = 0 then [] else map (push c) (all_matches [] segs cs (b - 1)))"
| "all_matches (a # as) segs s b =
     (if length s + b < length (a # as) + length (concat segs) then []
      else case s of
        [] \<Rightarrow> (if b = 0 then [] else all_matches as segs [] (b - 1))
      | c # cs \<Rightarrow>
          (if accepts a c then map (push c) (all_matches as segs cs b) else []) @
          (if b = 0 then []
           else map (push c) (all_matches as segs cs (b - 1)) @
                map (push c) (all_matches (a # as) segs cs (b - 1)) @
                all_matches as segs s (b - 1)))"
  by pat_completeness auto
termination
  by (relation "measure (\<lambda>(as, segs, s, b). length as + length (concat segs) + length segs + length s)") auto

declare all_matches.simps [simp del]

definition all_fuzzy_matches :: "string \<Rightarrow> string \<Rightarrow> string list list" where
  "all_fuzzy_matches sl_seq s =
     (case segments sl_seq of [] \<Rightarrow> [] | seg # rest \<Rightarrow> all_matches seg rest s MAX_MATCH_DIST)"

text \<open>
  Example reads. \<open>seqX\<close> is a read of sublibrary 90 that lacks eight characters of the
  two ITAM groups and has \<open>X\<close> where the pattern has \<open>.\<close>; \<open>capsX\<close> are the pieces
  of its match. \<open>seq63_err\<close> is a read of sublibrary 63 with a substitution in the prefix
  anchor and without the last character of the ITAM UMI; \<open>caps63_err\<close> are the pieces
  the search of the model finds.
\<close>

definition seqX :: string where
  "seqX = ''ACCCAGGTCCT'' @ ''XXX'' @ ''XGGXTCXGGXTCX'' @ ''GGGCCT'' @ ''TCAGGTAGT'' @
          ''GGTTCT'' @ ''ATGTTTAAGTCGAAT'' @ ''TCGGCTGCTTTA''"

definition capsX :: "string list" where
  "capsX = [''ACCCAGGTCCT'', ''XXX'', ''XGGXTCXGGXTCX'', ''GGGCCT'', ''TCAGGTAGT'',
            ''GGTTCT'', ''ATGTTTAAGTCGAAT'', ''TCGGCTGCTTTA'']"

definition seq63_err :: string where
  "seq63_err = ''ACCGAGGTCCT'' @ ''GGATCAGGA'' @ ''TCAGGATCAGGATC'' @ ''GGGCCT'' @ ''TCAGGTAGT'' @
               ''GGCGGAAGTCCTCGT'' @ ''ATGTTTAAGTCGAAT'' @ ''TCGGCTGCTTTA''"

definition caps63_err :: "string list" where
  "caps63_err = [''ACCGAGGTCCT'', ''GGATCAGGA'', ''TCAGGATCAGGATCG'', ''GGCCT'', ''TCAGGTAGT'',
                 ''GGCGGAAGTCCTCGT'', ''ATGTTTAAGTCGAAT'', ''TCGGCTGCTTTA'']"

section \<open>Lemmas about the merge engine\<close>

lemma length_evens: "length (evens xs) = (length xs + 1) div 2"
  by (induction xs rule: evens.induct) auto

lemma length_odds: "length (odds xs) = length xs div 2"
  by (induction xs rule: odds.induct) auto

lemma length_pair_up: "length (pair_up xs) = length xs div 2"
  by (simp add: pair_up_def length_evens length_odds)

lemma map_merge_length: "map_merge ps = Inr ms \<Longrightarrow> length ms = length ps"
  by (induction ps arbitrary: ms) (auto split: sum.splits)

lemma tables_of_pair_up:
  "tables_of (pair_up xs) (if length xs mod 2 = 1 then [last xs] else []) = xs"
  by (induction xs rule: evens.induct) (auto simp: tables_of_def pair_up_def)

lemma map_merge_invariant:
  assumes merge_step: "\<And>xs a b ys. Inv (xs @ a # b # ys) \<Longrightarrow>
            (case merge_dataframes (a, b) of Inl e \<Rightarrow> E e
             | Inr m \<Rightarrow> Inv (xs @ m # ys) \<and> Q (xs @ m # ys) = Q (xs @ a # b # ys))"
  shows "Inv (pre @ tables_of paired rest) \<Longrightarrow>
         (case map_merge paired of Inl e \<Rightarrow> E e
          | Inr ms \<Rightarrow> Inv (pre @ ms @ rest) \<and> Q (pre @ ms @ rest) = Q (pre @ tables_of paired rest))"
proof (induction paired arbitrary: pre)
  case Nil
  then show ?case by (simp add: tables_of_def)
next
  case (Cons p ps)
  obtain a b where p: "p = (a, b)" by (cases p)
  have inv: "Inv (pre @ a # b # tables_of ps rest)"
    using Cons.prems by (simp add: tables_of_def p)
  show ?case
  proof (cases "merge_dataframes (a, b)")
    case (Inl e)
    then show ?thesis using merge_step[OF inv] by (simp add: p)
  next
    case (Inr m)
    have m: "Inv (pre @ m # tables_of ps rest)"
      "Q (pre @ m # tables_of ps rest) = Q (pre @ a # b # tables_of ps rest)"
      using merge_step[OF inv] Inr by simp_all
    have "Inv ((pre @ [m]) @ tables_of ps rest)" using m(1) by simp
    from Cons.IH[OF this] show ?thesis
      using m(2) Inr by (auto simp: p tables_of_def split: sum.splits)
  qed
qed

lemma reduce_loop_invariant:
  assumes merge_step: "\<And>xs a b ys. Inv (xs @ a # b # ys) \<Longrightarrow>
            (case merge_dataframes (a, b) of Inl e \<Rightarrow> E e
             | Inr m \<Rightarrow> Inv (xs @ m # ys) \<and> Q (xs @ m # ys) = Q (xs @ a # b # ys))"
  shows "length odd_dfs \<le> 1 \<Longrightarrow> 0 < 2 * length paired_dfs + length odd_dfs \<Longrightarrow>
   Inv (tables_of paired_dfs odd_dfs) \<Longrightarrow>
   \<exists>r. reduce_loop paired_dfs odd_dfs round_num log = Some r \<and>
       (case r of Inl e \<Rightarrow> E e
        | Inr red \<Rightarrow> Inv [merged red] \<and> Q [merged red] = Q (tables_of paired_dfs odd_dfs) \<and>
            (\<exists>t. trace red = log @ t \<and> good_trace (2 * length paired_dfs + length odd_dfs) t))"
proof (induction "2 * length paired_dfs + length odd_dfs"
       arbitrary: paired_dfs odd_dfs round_num log rule: less_induct)
  case less
  let ?n = "2 * length paired_dfs + length odd_dfs"
  have round: "case map_merge paired_dfs of Inl e \<Rightarrow> E e
          | Inr ms \<Rightarrow> Inv (ms @ odd_dfs) \<and> Q (ms @ odd_dfs) = Q (tables_of paired_dfs odd_dfs)"
  proof -
    have "Inv ([] @ tables_of paired_dfs odd_dfs)" using less.prems(3) by simp
    from map_merge_invariant[where Inv = Inv and E = E and Q = Q, OF merge_step this]
    show ?thesis by (cases "map_merge paired_dfs") simp_all
  qed
  show ?case
  proof (cases "map_merge paired_dfs")
    case (Inl e)
    then show ?thesis using round by (subst reduce_loop.simps) simp
  next
    case (Inr merged0)
    have len0: "length merged0 = length paired_dfs"
      using Inr by (rule map_merge_length)
    define merged_dfs where
      "merged_dfs = (if length odd_dfs > 0 then merged0 @ [last odd_dfs] else merged0)"
    define odd_dfs1 where
      "odd_dfs1 = (if length odd_dfs > 0 then butlast odd_dfs else odd_dfs)"
    define log1 where "log1 = log @ [(length paired_dfs, length merged_dfs)]"
    have mo: "merged_dfs = merged0 @ odd_dfs"
      using less.prems(1) by (cases odd_dfs) (auto simp: merged_dfs_def)
    have lenm: "length merged_dfs = length paired_dfs + length odd_dfs"
      by (simp add: mo len0)
    have invm: "Inv merged_dfs" "Q merged_dfs = Q (tables_of paired_dfs odd_dfs)"
      using round Inr by (simp_all add: mo)
    have odd1: "odd_dfs1 = []"
      using less.prems(1) by (cases odd_dfs) (auto simp: odd_dfs1_def)
    have unfold: "reduce_loop paired_dfs odd_dfs round_num log =
        (if length merged_dfs = 1
         then Some (Inr \<lparr> merged = merged_dfs ! 0, rounds = round_num, trace = log1 \<rparr>)
         else if length merged_dfs mod 2 = 1
         then reduce_loop (pair_up merged_dfs) (odd_dfs1 @ [last merged_dfs]) round_num log1
         else reduce_loop (pair_up merged_dfs) odd_dfs1 (round_num + 1) log1)"
      by (subst reduce_loop.simps) (simp add: Inr merged_dfs_def odd_dfs1_def log1_def Let_def)
    show ?thesis
    proof (cases "length merged_dfs = 1")
      case True
      have "good_trace ?n [(length paired_dfs, length merged_dfs)]"
        using True lenm less.prems by (auto simp: good_trace_def)
      moreover have "merged_dfs = [merged_dfs ! 0]"
        using True by (cases merged_dfs) auto
      ultimately show ?thesis
        using True unfold invm by (simp add: log1_def)
    next
      case False
      have pos: "0 < length paired_dfs" using False lenm less.prems by linarith
      define odd' where
        "odd' = (if length merged_dfs mod 2 = 1 then odd_dfs1 @ [last merged_dfs] else odd_dfs1)"
      define rn' where "rn' = (if length merged_dfs mod 2 = 1 then round_num else round_num + 1)"
      have odd'_eq: "odd' = (if length merged_dfs mod 2 = 1 then [last merged_dfs] else [])"
        by (simp add: odd'_def odd1)
      have tabs: "tables_of (pair_up merged_dfs) odd' = merged_dfs"
        unfolding odd'_eq by (rule tables_of_pair_up)
      have next_n: "2 * length (pair_up merged_dfs) + length odd' = length merged_dfs"
        unfolding odd'_eq length_pair_up by (cases "length merged_dfs mod 2 = 1") (simp; presburger)+
      have "2 * length (pair_up merged_dfs) + length odd' < ?n"
        using next_n lenm pos by simp
      moreover have "length odd' \<le> 1" by (simp add: odd'_eq)
      moreover have "0 < 2 * length (pair_up merged_dfs) + length odd'"
        using next_n lenm pos by simp
      moreover have "Inv (tables_of (pair_up merged_dfs) odd')"
        using tabs invm(1) by simp
      ultimately have "\<exists>r. reduce_loop (pair_up merged_dfs) odd' rn' log1 = Some r \<and>
         (case r of Inl e \<Rightarrow> E e
          | Inr red \<Rightarrow> Inv [merged red] \<and>
              Q [merged red] = Q (tables_of (pair_up merged_dfs) odd') \<and>
              (\<exists>t. trace red = log1 @ t \<and>
                 good_trace (2 * length (pair_up merged_dfs) + length odd') t))"
        by (rule less.hyps)
      then obtain r where r1: "reduce_loop (pair_up merged_dfs) odd' rn' log1 = Some r"
        and r0: "case r of Inl e \<Rightarrow> E e
          | Inr red \<Rightarrow> Inv [merged red] \<and>
              Q [merged red] = Q (tables_of (pair_up merged_dfs) odd') \<and>
              (\<exists>t. trace red = log1 @ t \<and>
                 good_trace (2 * length (pair_up merged_dfs) + length odd') t)"
        by blast
      have r2: "case r of Inl e \<Rightarrow> E e
         | Inr red \<Rightarrow> Inv [merged red] \<and> Q [merged red] = Q merged_dfs \<and>
             (\<exists>t. trace red = log1 @ t \<and> good_trace (length merged_dfs) t)"
        using r0 by (cases r) (simp_all add: tabs next_n)
      have step: "reduce_loop paired_dfs odd_dfs round_num log = Some r"
        using unfold False r1 by (auto simp: odd'_def rn'_def)
      have "\<exists>t. trace red = log @ t \<and> good_trace ?n t" if hr: "r = Inr red" for red
      proof -
        obtain t where t: "trace red = log1 @ t" "good_trace (length merged_dfs) t"
          using r2 hr by auto
        have m2: "1 < length merged_dfs" using False lenm pos by linarith
        have "good_trace ?n ((length paired_dfs, length merged_dfs) # t)"
          using t(2) m2 lenm pos unfolding good_trace_def by (auto simp: less_imp_le)
        then show ?thesis using t(1) by (auto simp: log1_def)
      qed
      then show ?thesis using step r2 invm(2) by (cases r) auto
    qed
  qed
qed

lemma rename_overlap_disjoint:
  "set own \<inter> set other = {} \<Longrightarrow> rename_overlap own other s = own"
  by (induction own) (auto simp: rename_overlap_def)

lemma suffix_dups_same: "suffix_dups xs xs = []"
  by (simp add: suffix_dups_def)

lemma merge_dataframes_disjoint:
  "set (count_cols a) \<inter> set (count_cols b) = {} \<Longrightarrow>
   merge_dataframes (a, b) =
     Inr \<lparr> count_cols = count_cols a @ count_cols b,
           rows = outer_rows (length (count_cols a)) (length (count_cols b)) (rows a) (rows b) \<rparr>"
  by (simp add: merge_dataframes_def Let_def rename_overlap_disjoint Int_commute suffix_dups_same)

lemma merge_dataframes_shape:
  "merge_dataframes (a, b) = Inr m \<Longrightarrow>
   rows m = outer_rows (length (count_cols a)) (length (count_cols b)) (rows a) (rows b) \<and>
   length (count_cols m) = length (count_cols a) + length (count_cols b)"
  by (auto simp: merge_dataframes_def Let_def rename_overlap_def split: if_splits)

lemma matching_empty_iff: "matching k rs = [] \<longleftrightarrow> k \<notin> set (map fst rs)"
  by (induction rs) (auto simp: matching_def)

lemma matching_at_most_one:
  "distinct (map fst rs) \<Longrightarrow> length (matching k rs) \<le> 1"
proof (induction rs)
  case Nil
  then show ?case by (simp add: matching_def)
next
  case (Cons r rs)
  show ?case
  proof (cases "fst r = k")
    case True
    then have "matching k rs = []" using Cons.prems matching_empty_iff[of k rs] by simp
    then show ?thesis using True by (simp add: matching_def)
  next
    case False
    then show ?thesis using Cons by (simp add: matching_def)
  qed
qed

lemma join_left_single:
  assumes "distinct (map fst rs2)"
  shows "\<exists>w. join_left n2 rs2 r = [(fst r, snd r @ w)] \<and>
             (if fst r \<in> set (map fst rs2) then (fst r, w) \<in> set rs2 else w = replicate n2 None)"
proof (cases "matching (fst r) rs2")
  case Nil
  then show ?thesis using matching_empty_iff[of "fst r" rs2] by (simp add: join_left_def)
next
  case (Cons w ws)
  have "ws = []" using matching_at_most_one[OF assms, of "fst r"] Cons by simp
  moreover have "w \<in> set (matching (fst r) rs2)" using Cons by simp
  then have "(fst r, w) \<in> set rs2" by (auto simp: matching_def)
  moreover have "fst r \<in> set (map fst rs2)" using matching_empty_iff[of "fst r" rs2] Cons by simp
  ultimately show ?thesis using Cons by (simp add: join_left_def)
qed

lemma join_left_keys: "fst ` set (join_left n2 rs2 r) = {fst r}"
  by (cases "matching (fst r) rs2") (auto simp: join_left_def)

lemma outer_rows_keys:
  "fst ` set (outer_rows n1 n2 rs1 rs2) = fst ` set rs1 \<union> fst ` set rs2"
proof -
  have A: "fst ` set (concat (map (join_left n2 rs2) rs1)) = fst ` set rs1"
    using join_left_keys by (auto simp: image_UN)
  have B: "fst ` set (map (\<lambda>r. (fst r, replicate n1 None @ snd r))
                         (filter (\<lambda>r. fst r \<notin> set (map fst rs1)) rs2))
           = fst ` set rs2 - fst ` set rs1"
    by (force simp: image_image)
  show ?thesis unfolding outer_rows_def set_append image_Un A B by blast
qed

lemma map_of_distinct_keys:
  "distinct (map fst rs) \<Longrightarrow> r \<in> set rs \<Longrightarrow> map_of rs (fst r) = Some (snd r)"
  by (cases r) simp

lemma join_left_distinct:
  assumes "distinct (map fst rs2)"
  shows "join_left n2 rs2 r = [(fst r, snd r @ lookup_cells rs2 n2 (fst r))]"
proof -
  obtain w where w: "join_left n2 rs2 r = [(fst r, snd r @ w)]"
    "if fst r \<in> set (map fst rs2) then (fst r, w) \<in> set rs2 else w = replicate n2 None"
    using join_left_single[OF assms] by blast
  have "lookup_cells rs2 n2 (fst r) = w"
  proof (cases "fst r \<in> set (map fst rs2)")
    case True
    then have "map_of rs2 (fst r) = Some w" using w(2) assms by simp
    then show ?thesis by (simp add: lookup_cells_def)
  next
    case False
    then have "map_of rs2 (fst r) = None" by (simp add: map_of_eq_None_iff)
    then show ?thesis using w(2) False by (simp add: lookup_cells_def)
  qed
  then show ?thesis using w(1) by simp
qed

lemma outer_rows_distinct:
  assumes "distinct (map fst rs2)"
  shows "outer_rows n1 n2 rs1 rs2 =
           map (\<lambda>r. (fst r, snd r @ lookup_cells rs2 n2 (fst r))) rs1 @
           map (\<lambda>r. (fst r, replicate n1 None @ snd r))
               (filter (\<lambda>r. fst r \<notin> set (map fst rs1)) rs2)"
proof -
  have "concat (map (join_left n2 rs2) rs1) =
        map (\<lambda>r. (fst r, snd r @ lookup_cells rs2 n2 (fst r))) rs1"
    by (induction rs1) (simp_all add: join_left_distinct[OF assms])
  then show ?thesis by (simp add: outer_rows_def)
qed

lemma lookup_cells_length:
  "\<forall>r \<in> set rs. length (snd r) = n \<Longrightarrow> length (lookup_cells rs n k) = n"
proof (cases "map_of rs k")
  case None
  then show ?thesis by (simp add: lookup_cells_def)
next
  case (Some w)
  assume all: "\<forall>r \<in> set rs. length (snd r) = n"
  have "(k, w) \<in> set rs" using Some by (rule map_of_SomeD)
  then have "length w = n" using all by force
  then show ?thesis using Some by (simp add: lookup_cells_def)
qed

lemma merge_dataframes_wf:
  assumes "wf_table a" "wf_table b" "merge_dataframes (a, b) = Inr m"
  shows "wf_table m"
proof -
  let ?n1 = "length (count_cols a)" and ?n2 = "length (count_cols b)"
  have da: "distinct (map fst (rows a))" and db: "distinct (map fst (rows b))"
    and la: "\<forall>r \<in> set (rows a). length (snd r) = ?n1"
    and lb: "\<forall>r \<in> set (rows b). length (snd r) = ?n2"
    using assms(1,2) by (auto simp: wf_table_def)
  have shape: "rows m = outer_rows ?n1 ?n2 (rows a) (rows b)"
    "length (count_cols m) = ?n1 + ?n2"
    using merge_dataframes_shape[OF assms(3)] by simp_all
  have rows_eq: "rows m =
      map (\<lambda>r. (fst r, snd r @ lookup_cells (rows b) ?n2 (fst r))) (rows a) @
      map (\<lambda>r. (fst r, replicate ?n1 None @ snd r))
          (filter (\<lambda>r. fst r \<notin> set (map fst (rows a))) (rows b))"
    using shape(1) outer_rows_distinct[OF db] by simp
  have keys_eq: "map fst (rows m) =
      map fst (rows a) @ filter (\<lambda>k. k \<notin> set (map fst (rows a))) (map fst (rows b))"
    unfolding rows_eq by (simp add: filter_map comp_def)
  have "distinct (map fst (rows m))"
    unfolding keys_eq using da db by auto
  moreover have "\<forall>r \<in> set (rows m). length (snd r) = length (count_cols m)"
    unfolding rows_eq shape(2) using la lb lookup_cells_length[OF lb] by auto
  ultimately show ?thesis by (simp add: wf_table_def)
qed

lemma merge_dataframes_keys:
  "merge_dataframes (a, b) = Inr m \<Longrightarrow> table_keys m = table_keys a \<union> table_keys b"
  using merge_dataframes_shape[of a b m] outer_rows_keys by (simp add: table_keys_def)

lemma sum_list_indicator:
  "distinct (map fst rs) \<Longrightarrow>
   sum_list (map (\<lambda>r. if fst r = k then c else (0::int)) rs) = (if k \<in> fst ` set rs then c else 0)"
  by (induction rs) auto

lemma lookup_cells_Cons:
  assumes "j < n" "k \<notin> fst ` set rest"
  shows "cell_value (lookup_cells ((k, w) # rest) n k' ! j) =
         (if k' = k then cell_value (w ! j) else 0) + cell_value (lookup_cells rest n k' ! j)"
proof (cases "k' = k")
  case True
  have "map_of rest k = None" using assms(2) by (simp add: map_of_eq_None_iff)
  then show ?thesis using True assms(1) by (simp add: lookup_cells_def cell_value_def)
next
  case False
  then show ?thesis by (simp add: lookup_cells_def)
qed

lemma sum_matched_cells:
  assumes "distinct (map fst rs1)" "j < n"
  shows "distinct (map fst rs2) \<Longrightarrow>
         sum_list (map (\<lambda>r. cell_value (lookup_cells rs2 n (fst r) ! j)) rs1) =
         sum_list (map (\<lambda>r. cell_value (snd r ! j)) (filter (\<lambda>r. fst r \<in> set (map fst rs1)) rs2))"
proof (induction rs2)
  case Nil
  then show ?case using assms(2) by (simp add: lookup_cells_def cell_value_def)
next
  case (Cons r rest)
  obtain k w where r: "r = (k, w)" by (cases r)
  have notin: "k \<notin> fst ` set rest" using Cons.prems by (simp add: r)
  have "sum_list (map (\<lambda>r'. cell_value (lookup_cells (r # rest) n (fst r') ! j)) rs1) =
        sum_list (map (\<lambda>r'. (if fst r' = k then cell_value (w ! j) else 0) +
                              cell_value (lookup_cells rest n (fst r') ! j)) rs1)"
    unfolding r using lookup_cells_Cons[OF assms(2) notin] by simp
  also have "\<dots> = (if k \<in> fst ` set rs1 then cell_value (w ! j) else 0) +
                   sum_list (map (\<lambda>r'. cell_value (lookup_cells rest n (fst r') ! j)) rs1)"
    by (simp add: sum_list_addf sum_list_indicator[OF assms(1)])
  also have "\<dots> = sum_list (map (\<lambda>r. cell_value (snd r ! j))
                         (filter (\<lambda>r. fst r \<in> set (map fst rs1)) (r # rest)))"
    using Cons.IH Cons.prems by (simp add: r)
  finally show ?case .
qed

lemma sum_list_split_filter:
  "sum_list (map f xs) = sum_list (map f (filter P xs)) + (sum_list (map f (filter (\<lambda>x. \<not> P x) xs)) :: int)"
  by (induction xs) auto

lemma merge_dataframes_col_sums:
  assumes "wf_table a" "wf_table b" "merge_dataframes (a, b) = Inr m"
  shows "col_sums m = col_sums a @ col_sums b"
proof -
  let ?n1 = "length (count_cols a)" and ?n2 = "length (count_cols b)"
  have da: "distinct (map fst (rows a))" and db: "distinct (map fst (rows b))"
    and la: "\<forall>r \<in> set (rows a). length (snd r) = ?n1"
    and lb: "\<forall>r \<in> set (rows b). length (snd r) = ?n2"
    using assms(1,2) by (auto simp: wf_table_def)
  have shape: "rows m = outer_rows ?n1 ?n2 (rows a) (rows b)"
    "length (count_cols m) = ?n1 + ?n2"
    using merge_dataframes_shape[OF assms(3)] by simp_all
  have rows_eq: "rows m =
      map (\<lambda>r. (fst r, snd r @ lookup_cells (rows b) ?n2 (fst r))) (rows a) @
      map (\<lambda>r. (fst r, replicate ?n1 None @ snd r))
          (filter (\<lambda>r. fst r \<notin> set (map fst (rows a))) (rows b))"
    using shape(1) outer_rows_distinct[OF db] by simp
  have left: "col_sum m i = col_sum a i" if i: "i < ?n1" for i
  proof -
    have "sum_list (map (\<lambda>r. cell_value ((snd r @ lookup_cells (rows b) ?n2 (fst r)) ! i)) (rows a))
          = sum_list (map (\<lambda>r. cell_value (snd r ! i)) (rows a))"
      using la i by (intro arg_cong[where f = sum_list] map_cong) (auto simp: nth_append)
    moreover have "sum_list (map (\<lambda>r. cell_value ((replicate ?n1 None @ snd r) ! i))
                     (filter (\<lambda>r. fst r \<notin> set (map fst (rows a))) (rows b))) = 0"
      using i by (simp add: nth_append cell_value_def)
    ultimately show ?thesis
      unfolding col_sum_def rows_eq by (simp add: comp_def)
  qed
  have right: "col_sum m (?n1 + j) = col_sum b j" if j: "j < ?n2" for j
  proof -
    have "sum_list (map (\<lambda>r. cell_value ((snd r @ lookup_cells (rows b) ?n2 (fst r)) ! (?n1 + j))) (rows a))
          = sum_list (map (\<lambda>r. cell_value (lookup_cells (rows b) ?n2 (fst r) ! j)) (rows a))"
      using la by (intro arg_cong[where f = sum_list] map_cong) (auto simp: nth_append)
    also have "\<dots> = sum_list (map (\<lambda>r. cell_value (snd r ! j))
                        (filter (\<lambda>r. fst r \<in> set (map fst (rows a))) (rows b)))"
      by (rule sum_matched_cells[OF da j db])
    finally have L: "sum_list (map (\<lambda>r. cell_value ((snd r @ lookup_cells (rows b) ?n2 (fst r)) ! (?n1 + j))) (rows a))
          = sum_list (map (\<lambda>r. cell_value (snd r ! j))
                        (filter (\<lambda>r. fst r \<in> set (map fst (rows a))) (rows b)))" .
    have R: "sum_list (map (\<lambda>r. cell_value ((replicate ?n1 None @ snd r) ! (?n1 + j)))
                     (filter (\<lambda>r. fst r \<notin> set (map fst (rows a))) (rows b)))
          = sum_list (map (\<lambda>r. cell_value (snd r ! j))
                     (filter (\<lambda>r. fst r \<notin> set (map fst (rows a))) (rows b)))"
      by (simp add: nth_append)
    show ?thesis
      unfolding col_sum_def rows_eq
      using L R sum_list_split_filter[where f = "\<lambda>r. cell_value (snd r ! j)" and P = "\<lambda>r. fst r \<in> set (map fst (rows a))" and xs = "rows b"]
      by (simp add: comp_def)
  qed
  have split: "[0..<?n1 + ?n2] = [0..<?n1] @ map (\<lambda>j. ?n1 + j) [0..<?n2]"
  proof -
    have "[0..<?n1 + ?n2] = [0..<?n1] @ [?n1..<?n1 + ?n2]"
      by (rule upt_add_eq_append) simp
    moreover have "map (\<lambda>j. ?n1 + j) [0..<?n2] = [?n1..<?n1 + ?n2]"
      using map_add_upt[of ?n1 ?n2] by (simp only: add.commute)
    ultimately show ?thesis by simp
  qed
  have "map (col_sum m) [0..<?n1 + ?n2] = map (col_sum a) [0..<?n1] @ map (col_sum b) [0..<?n2]"
    unfolding split map_append map_map comp_def using left right by simp
  then show ?thesis by (simp add: col_sums_def shape(2))
qed

lemma table_cells_eq:
  "table_cells t = (\<Union>r \<in> set (rows t). {fst r} \<times> set (zip (count_cols t) (snd r)))"
  by (auto simp: table_cells_def)

lemma zip_replicate_None:
  "set (zip cs (replicate (length cs) None)) = set cs \<times> {None}"
  by (induction cs) auto

lemma lookup_cells_in:
  "distinct (map fst rs) \<Longrightarrow> (k, w) \<in> set rs \<Longrightarrow> lookup_cells rs n k = w"
  by (simp add: lookup_cells_def)

lemma lookup_cells_notin:
  "k \<notin> fst ` set rs \<Longrightarrow> lookup_cells rs n k = replicate n None"
proof -
  assume "k \<notin> fst ` set rs"
  then have "map_of rs k = None" by (simp add: map_of_eq_None_iff)
  then show ?thesis by (simp add: lookup_cells_def)
qed

lemma merge_dataframes_cells:
  assumes "wf_table a" "wf_table b" "set (count_cols a) \<inter> set (count_cols b) = {}"
    and "merge_dataframes (a, b) = Inr m"
  shows "table_cells m =
           padded_cells (table_keys a \<union> table_keys b) a \<union>
           padded_cells (table_keys a \<union> table_keys b) b"
proof -
  let ?ca = "count_cols a" and ?cb = "count_cols b"
  let ?n1 = "length ?ca" and ?n2 = "length ?cb"
  let ?Ka = "fst ` set (rows a)" and ?Kb = "fst ` set (rows b)"
  have da: "distinct (map fst (rows a))" and db: "distinct (map fst (rows b))"
    and la: "\<forall>r \<in> set (rows a). length (snd r) = ?n1"
    and lb: "\<forall>r \<in> set (rows b). length (snd r) = ?n2"
    using assms(1,2) by (auto simp: wf_table_def)
  have m_eq: "m = \<lparr> count_cols = ?ca @ ?cb, rows = outer_rows ?n1 ?n2 (rows a) (rows b) \<rparr>"
    using merge_dataframes_disjoint[OF assms(3)] assms(4) by simp
  have rows_eq: "rows m =
      map (\<lambda>r. (fst r, snd r @ lookup_cells (rows b) ?n2 (fst r))) (rows a) @
      map (\<lambda>r. (fst r, replicate ?n1 None @ snd r))
          (filter (\<lambda>r. fst r \<notin> set (map fst (rows a))) (rows b))"
    using m_eq outer_rows_distinct[OF db] by simp
  have cols_eq: "count_cols m = ?ca @ ?cb" using m_eq by simp
  define LA where "LA = (\<Union>r \<in> set (rows a). {fst r} \<times> set (zip ?ca (snd r)))"
  define LB where "LB = (\<Union>r \<in> set (rows a). {fst r} \<times> set (zip ?cb (lookup_cells (rows b) ?n2 (fst r))))"
  define RA where "RA = (\<Union>r \<in> {r \<in> set (rows b). fst r \<notin> ?Ka}. {fst r} \<times> (set ?ca \<times> {None :: int option}))"
  define RB where "RB = (\<Union>r \<in> {r \<in> set (rows b). fst r \<notin> ?Ka}. {fst r} \<times> set (zip ?cb (snd r)))"
  have zl: "zip (?ca @ ?cb) (snd r @ w) = zip ?ca (snd r) @ zip ?cb w" if "r \<in> set (rows a)" for r w
    using la that by (simp add: zip_append)
  have zr: "zip (?ca @ ?cb) (replicate ?n1 None @ w) = zip ?ca (replicate ?n1 None) @ zip ?cb w" for w
    by (simp add: zip_append)
  have "table_cells m =
        (\<Union>r \<in> set (rows a). {fst r} \<times> set (zip (?ca @ ?cb) (snd r @ lookup_cells (rows b) ?n2 (fst r)))) \<union>
        (\<Union>r \<in> {r \<in> set (rows b). fst r \<notin> ?Ka}. {fst r} \<times> set (zip (?ca @ ?cb) (replicate ?n1 None @ snd r)))"
    unfolding table_cells_eq rows_eq cols_eq by (simp add: image_Un UN_Un image_image)
  also have "\<dots> = (LA \<union> LB) \<union> (RA \<union> RB)"
    unfolding LA_def LB_def RA_def RB_def zr zip_replicate_None
    using zl by (auto simp: zip_replicate_None)
  finally have cells_m: "table_cells m = (LA \<union> LB) \<union> (RA \<union> RB)" .
  have LA: "LA = table_cells a" by (simp add: LA_def table_cells_eq)
  have RA: "RA = (?Kb - ?Ka) \<times> (set ?ca \<times> {None})"
    unfolding RA_def by force
  have LB: "LB = (\<Union>r \<in> {r \<in> set (rows b). fst r \<in> ?Ka}. {fst r} \<times> set (zip ?cb (snd r))) \<union>
                 (?Ka - ?Kb) \<times> (set ?cb \<times> {None})" (is "LB = ?M \<union> ?P")
  proof (rule set_eqI, rule iffI)
    fix x assume "x \<in> LB"
    then obtain r where r: "r \<in> set (rows a)"
      "x \<in> {fst r} \<times> set (zip ?cb (lookup_cells (rows b) ?n2 (fst r)))"
      by (auto simp: LB_def)
    show "x \<in> ?M \<union> ?P"
    proof (cases "fst r \<in> ?Kb")
      case True
      then obtain r' where r': "r' \<in> set (rows b)" "fst r' = fst r" by auto
      then have "lookup_cells (rows b) ?n2 (fst r) = snd r'"
        using lookup_cells_in[OF db, of "fst r" "snd r'" ?n2] by (metis prod.collapse)
      then have "x \<in> {fst r'} \<times> set (zip ?cb (snd r'))" using r(2) r'(2) by simp
      moreover have "fst r' \<in> ?Ka" using r(1) r'(2) by force
      ultimately have "x \<in> ?M" using r'(1) by blast
      then show ?thesis by simp
    next
      case False
      then have "lookup_cells (rows b) ?n2 (fst r) = replicate ?n2 None"
        by (rule lookup_cells_notin)
      then have "x \<in> {fst r} \<times> (set ?cb \<times> {None})"
        using r(2) by (simp add: zip_replicate_None)
      moreover have "fst r \<in> ?Ka - ?Kb" using r(1) False by simp
      ultimately have "x \<in> ?P" by blast
      then show ?thesis by simp
    qed
  next
    fix x assume "x \<in> ?M \<union> ?P"
    then consider "x \<in> ?M" | "x \<in> ?P" by blast
    then show "x \<in> LB"
    proof cases
      case 1
      then obtain r' where r': "r' \<in> set (rows b)" "fst r' \<in> ?Ka"
        "x \<in> {fst r'} \<times> set (zip ?cb (snd r'))" by blast
      then obtain r where r: "r \<in> set (rows a)" "fst r = fst r'" by auto
      have "lookup_cells (rows b) ?n2 (fst r) = snd r'"
        using lookup_cells_in[OF db, of "fst r'" "snd r'" ?n2] r'(1) r(2) by simp
      then have "x \<in> {fst r} \<times> set (zip ?cb (lookup_cells (rows b) ?n2 (fst r)))"
        using r'(3) r(2) by simp
      then show ?thesis unfolding LB_def using r(1) by blast
    next
      case 2
      then obtain r where r: "r \<in> set (rows a)" "fst r \<notin> ?Kb"
        "x \<in> {fst r} \<times> (set ?cb \<times> {None})" by auto
      have "lookup_cells (rows b) ?n2 (fst r) = replicate ?n2 None"
        using r(2) by (rule lookup_cells_notin)
      then have "x \<in> {fst r} \<times> set (zip ?cb (lookup_cells (rows b) ?n2 (fst r)))"
        using r(3) by (simp add: zip_replicate_None)
      then show ?thesis unfolding LB_def using r(1) by blast
    qed
  qed
  have RB_M: "RB \<union> (\<Union>r \<in> {r \<in> set (rows b). fst r \<in> ?Ka}. {fst r} \<times> set (zip ?cb (snd r)))
              = table_cells b"
    unfolding RB_def table_cells_eq by blast
  have "table_cells m = table_cells a \<union> (?Kb - ?Ka) \<times> (set ?ca \<times> {None}) \<union>
                        (table_cells b \<union> (?Ka - ?Kb) \<times> (set ?cb \<times> {None}))"
    unfolding cells_m LA RA LB using RB_M by blast
  moreover have "(?Ka \<union> ?Kb) - ?Ka = ?Kb - ?Ka" "(?Ka \<union> ?Kb) - ?Kb = ?Ka - ?Kb" by blast+
  ultimately show ?thesis
    by (simp add: padded_cells_def table_keys_def)
qed

lemma mset_concat_map_cong:
  "mset xs = mset ys \<Longrightarrow> mset (concat (map f xs)) = mset (concat (map f ys))"
proof -
  assume eq: "mset xs = mset ys"
  have "mset (concat (map f zs)) = sum_mset (image_mset (\<lambda>z. mset (f z)) (mset zs))" for zs
    by (induction zs) simp_all
  then show ?thesis using eq by simp
qed

lemma padded_cells_merge:
  assumes "wf_table a" "wf_table b" "set (count_cols a) \<inter> set (count_cols b) = {}"
    and "merge_dataframes (a, b) = Inr m" "table_keys a \<union> table_keys b \<subseteq> K"
  shows "padded_cells K m = padded_cells K a \<union> padded_cells K b"
proof -
  have cells: "table_cells m =
           padded_cells (table_keys a \<union> table_keys b) a \<union>
           padded_cells (table_keys a \<union> table_keys b) b"
    by (rule merge_dataframes_cells[OF assms(1-4)])
  have keys: "table_keys m = table_keys a \<union> table_keys b"
    by (rule merge_dataframes_keys[OF assms(4)])
  have cols: "set (count_cols m) = set (count_cols a) \<union> set (count_cols b)"
    using merge_dataframes_disjoint[OF assms(3)] assms(4) by auto
  show ?thesis
    unfolding padded_cells_def[of K m] cells keys cols
    unfolding padded_cells_def using assms(5) by blast
qed

lemma wf_samples_disjoint:
  "wf_samples (xs @ a # b # ys) \<Longrightarrow> set (count_cols a) \<inter> set (count_cols b) = {}"
  by (auto simp: wf_samples_def)

lemma all_keys_merge:
  "table_keys m = table_keys a \<union> table_keys b \<Longrightarrow>
   all_keys (xs @ m # ys) = all_keys (xs @ a # b # ys)"
  by (auto simp: all_keys_def)

lemma joined_cells_merge:
  assumes "table_keys m = table_keys a \<union> table_keys b"
    and "\<And>K. table_keys a \<union> table_keys b \<subseteq> K \<Longrightarrow>
              padded_cells K m = padded_cells K a \<union> padded_cells K b"
  shows "joined_cells (xs @ m # ys) = joined_cells (xs @ a # b # ys)"
proof -
  let ?K = "all_keys (xs @ a # b # ys)"
  have K: "all_keys (xs @ m # ys) = ?K" using assms(1) by (rule all_keys_merge)
  have "table_keys a \<union> table_keys b \<subseteq> ?K" by (auto simp: all_keys_def)
  then have "padded_cells ?K m = padded_cells ?K a \<union> padded_cells ?K b" by (rule assms(2))
  then show ?thesis unfolding joined_cells_def K by auto
qed

lemma merge_step_samples:
  assumes "wf_samples (xs @ a # b # ys)"
  shows "case merge_dataframes (a, b) of
           Inl e \<Rightarrow> False
         | Inr m \<Rightarrow> wf_samples (xs @ m # ys) \<and>
             (concat (map count_cols (xs @ m # ys)), all_keys (xs @ m # ys),
              joined_cells (xs @ m # ys), concat (map col_sums (xs @ m # ys))) =
             (concat (map count_cols (xs @ a # b # ys)), all_keys (xs @ a # b # ys),
              joined_cells (xs @ a # b # ys), concat (map col_sums (xs @ a # b # ys)))"
proof -
  have wa: "wf_table a" and wb: "wf_table b" using assms by (auto simp: wf_samples_def)
  have dis: "set (count_cols a) \<inter> set (count_cols b) = {}" using assms by (rule wf_samples_disjoint)
  define m where "m = \<lparr> count_cols = count_cols a @ count_cols b,
       rows = outer_rows (length (count_cols a)) (length (count_cols b)) (rows a) (rows b) \<rparr>"
  have mm: "merge_dataframes (a, b) = Inr m"
    unfolding m_def by (rule merge_dataframes_disjoint[OF dis])
  have wm: "wf_table m" by (rule merge_dataframes_wf[OF wa wb mm])
  have cols: "count_cols m = count_cols a @ count_cols b" by (simp add: m_def)
  have keys: "table_keys m = table_keys a \<union> table_keys b" by (rule merge_dataframes_keys[OF mm])
  have sums: "col_sums m = col_sums a @ col_sums b" by (rule merge_dataframes_col_sums[OF wa wb mm])
  have inv: "wf_samples (xs @ m # ys)" using assms wm by (auto simp: wf_samples_def cols)
  have jc: "joined_cells (xs @ m # ys) = joined_cells (xs @ a # b # ys)"
    using keys padded_cells_merge[OF wa wb dis mm] by (rule joined_cells_merge)
  show ?thesis
    using inv jc all_keys_merge[OF keys] by (simp add: mm cols sums)
qed


lemma reduce_dataframes_invariant:
  assumes merge_step: "\<And>xs a b ys. Inv (xs @ a # b # ys) \<Longrightarrow>
            (case merge_dataframes (a, b) of Inl e \<Rightarrow> E e
             | Inr m \<Rightarrow> Inv (xs @ m # ys) \<and> Q (xs @ m # ys) = Q (xs @ a # b # ys))"
    and "dfs \<noteq> []" "Inv dfs"
  shows "\<exists>r. reduce_dataframes dfs = Some r \<and>
       (case r of Inl e \<Rightarrow> E e
        | Inr red \<Rightarrow> Inv [merged red] \<and> Q [merged red] = Q dfs \<and>
            good_trace (length dfs) (trace red))"
proof -
  let ?odd = "if length dfs mod 2 = 1 then [last dfs] else []"
  have tabs: "tables_of (pair_up dfs) ?odd = dfs" by (rule tables_of_pair_up)
  have n: "2 * length (pair_up dfs) + length ?odd = length dfs"
    unfolding length_pair_up by (cases "length dfs mod 2 = 1") (simp; presburger)+
  have a1: "length ?odd \<le> 1" by simp
  have a2: "0 < 2 * length (pair_up dfs) + length ?odd"
    unfolding n using assms(2) by simp
  have a3: "Inv (tables_of (pair_up dfs) ?odd)" using tabs assms(3) by simp
  have "\<exists>r. reduce_loop (pair_up dfs) ?odd 0 [] = Some r \<and>
       (case r of Inl e \<Rightarrow> E e
        | Inr red \<Rightarrow> Inv [merged red] \<and> Q [merged red] = Q (tables_of (pair_up dfs) ?odd) \<and>
            (\<exists>t. trace red = [] @ t \<and> good_trace (2 * length (pair_up dfs) + length ?odd) t))"
    using reduce_loop_invariant[where Inv = Inv and E = E and Q = Q and odd_dfs = ?odd
        and paired_dfs = "pair_up dfs" and round_num = 0 and log = "[]", OF merge_step a1 a2 a3]
    by blast
  then obtain r where r: "reduce_loop (pair_up dfs) ?odd 0 [] = Some r"
    and c: "case r of Inl e \<Rightarrow> E e
        | Inr red \<Rightarrow> Inv [merged red] \<and> Q [merged red] = Q (tables_of (pair_up dfs) ?odd) \<and>
            (\<exists>t. trace red = [] @ t \<and> good_trace (2 * length (pair_up dfs) + length ?odd) t)"
    by blast
  have "case r of Inl e \<Rightarrow> E e
        | Inr red \<Rightarrow> Inv [merged red] \<and> Q [merged red] = Q dfs \<and>
            good_trace (length dfs) (trace red)"
    using c by (cases r) (simp_all only: tabs n append_Nil sum.case, auto)
  then show ?thesis using r by (auto simp: reduce_dataframes_def)
qed

lemma merge_step_labels:
  assumes "distinct (concat (map count_cols (xs @ a # b # ys)))"
  shows "case merge_dataframes (a, b) of
           Inl e \<Rightarrow> False
         | Inr m \<Rightarrow> distinct (concat (map count_cols (xs @ m # ys))) \<and> () = ()"
proof -
  have dis: "set (count_cols a) \<inter> set (count_cols b) = {}" using assms by auto
  show ?thesis
    using assms by (simp add: merge_dataframes_disjoint[OF dis])
qed

lemma merge_step_any:
  "True \<Longrightarrow> (case merge_dataframes (a, b) of Inl e \<Rightarrow> True | Inr m \<Rightarrow> True \<and> () = ())"
  by (simp split: sum.splits)

lemma padded_cells_union:
  assumes "all_keys ts \<subseteq> K"
  shows "(\<Union>t \<in> set ts. padded_cells K t) =
         joined_cells ts \<union> (K - all_keys ts) \<times> (set (concat (map count_cols ts)) \<times> {None})"
proof -
  have sub: "table_keys t \<subseteq> all_keys ts" if "t \<in> set ts" for t
    using that by (auto simp: all_keys_def)
  have "padded_cells K t =
        padded_cells (all_keys ts) t \<union> (K - all_keys ts) \<times> (set (count_cols t) \<times> {None})"
    if "t \<in> set ts" for t
    unfolding padded_cells_def using sub[OF that] assms by blast
  then have "(\<Union>t \<in> set ts. padded_cells K t) =
        (\<Union>t \<in> set ts. padded_cells (all_keys ts) t \<union>
            (K - all_keys ts) \<times> (set (count_cols t) \<times> {None}))"
    by simp
  also have "\<dots> = joined_cells ts \<union>
        (K - all_keys ts) \<times> (set (concat (map count_cols ts)) \<times> {None})"
    unfolding joined_cells_def by auto
  finally show ?thesis .
qed

lemma joined_cells_single: "joined_cells [t] = table_cells t"
  by (simp add: joined_cells_def all_keys_def padded_cells_def)

lemma all_keys_single: "all_keys [t] = table_keys t"
  by (simp add: all_keys_def)

lemma all_keys_append: "all_keys (xs @ ys) = all_keys xs \<union> all_keys ys"
  by (auto simp: all_keys_def)

lemma wf_samples_append:
  "wf_samples (xs @ ys) \<Longrightarrow>
   wf_samples xs \<and> wf_samples ys \<and>
   set (concat (map count_cols xs)) \<inter> set (concat (map count_cols ys)) = {}"
  by (auto simp: wf_samples_def)

lemma run_pairing_result:
  "wf_samples (tables p) \<Longrightarrow>
   \<exists>m. run_pairing p = Inr m \<and> wf_table m \<and>
       count_cols m = concat (map count_cols (tables p)) \<and>
       table_keys m = all_keys (tables p) \<and>
       table_cells m = joined_cells (tables p)"
proof (induction p)
  case (Table t)
  then show ?case
    by (simp add: wf_samples_def joined_cells_single all_keys_single)
next
  case (Merge l r)
  have wl: "wf_samples (tables l)" and wr: "wf_samples (tables r)"
    and dis0: "set (concat (map count_cols (tables l))) \<inter> set (concat (map count_cols (tables r))) = {}"
    using wf_samples_append[of "tables l" "tables r"] Merge.prems by simp_all
  obtain a where a: "run_pairing l = Inr a" "wf_table a"
    "count_cols a = concat (map count_cols (tables l))"
    "table_keys a = all_keys (tables l)" "table_cells a = joined_cells (tables l)"
    using Merge.IH(1)[OF wl] by blast
  obtain b where b: "run_pairing r = Inr b" "wf_table b"
    "count_cols b = concat (map count_cols (tables r))"
    "table_keys b = all_keys (tables r)" "table_cells b = joined_cells (tables r)"
    using Merge.IH(2)[OF wr] by blast
  have dis: "set (count_cols a) \<inter> set (count_cols b) = {}"
    using dis0 by (simp only: a(3) b(3))
  define m where "m = \<lparr> count_cols = count_cols a @ count_cols b,
       rows = outer_rows (length (count_cols a)) (length (count_cols b)) (rows a) (rows b) \<rparr>"
  have mm: "merge_dataframes (a, b) = Inr m"
    unfolding m_def by (rule merge_dataframes_disjoint[OF dis])
  let ?K = "all_keys (tables l @ tables r)"
  have K: "?K = table_keys a \<union> table_keys b" by (simp add: all_keys_append a(4) b(4))
  have pa: "padded_cells ?K a = (\<Union>t \<in> set (tables l). padded_cells ?K t)"
  proof -
    have "all_keys (tables l) \<subseteq> ?K" by (simp add: all_keys_append)
    from padded_cells_union[OF this] show ?thesis
      by (simp add: padded_cells_def[of ?K a] a(3,4,5))
  qed
  have pb: "padded_cells ?K b = (\<Union>t \<in> set (tables r). padded_cells ?K t)"
  proof -
    have "all_keys (tables r) \<subseteq> ?K" by (simp add: all_keys_append)
    from padded_cells_union[OF this] show ?thesis
      by (simp add: padded_cells_def[of ?K b] b(3,4,5))
  qed
  have cells: "table_cells m = joined_cells (tables l @ tables r)"
    using merge_dataframes_cells[OF a(2) b(2) dis mm] pa pb
    by (simp add: K[symmetric] joined_cells_def Un_commute UN_Un)
  have "run_pairing (Merge l r) = Inr m" by (simp add: a(1) b(1) mm)
  moreover have "wf_table m" by (rule merge_dataframes_wf[OF a(2) b(2) mm])
  moreover have "count_cols m = concat (map count_cols (tables (Merge l r)))"
    by (simp add: m_def a(3) b(3))
  moreover have "table_keys m = all_keys (tables (Merge l r))"
    using merge_dataframes_keys[OF mm] K by simp
  moreover have "table_cells m = joined_cells (tables (Merge l r))"
    using cells by simp
  ultimately show ?case by blast
qed

lemma reduce_dataframes_samples:
  assumes "wf_samples dfs" "dfs \<noteq> []"
  shows "\<exists>red. reduce_dataframes dfs = Some (Inr red) \<and> wf_table (merged red) \<and>
          count_cols (merged red) = concat (map count_cols dfs) \<and>
          table_keys (merged red) = all_keys dfs \<and>
          table_cells (merged red) = joined_cells dfs \<and>
          col_sums (merged red) = concat (map col_sums dfs)"
proof -
  let ?Q = "\<lambda>ts. (concat (map count_cols ts), all_keys ts, joined_cells ts, concat (map col_sums ts))"
  have "\<exists>r. reduce_dataframes dfs = Some r \<and>
       (case r of Inl e \<Rightarrow> False
        | Inr red \<Rightarrow> wf_samples [merged red] \<and> ?Q [merged red] = ?Q dfs \<and>
            good_trace (length dfs) (trace red))"
    by (rule reduce_dataframes_invariant[where Inv = wf_samples and Q = ?Q and E = "\<lambda>_. False",
          OF merge_step_samples assms(2,1)])
  then obtain r where r: "reduce_dataframes dfs = Some r"
    and c: "case r of Inl e \<Rightarrow> False
        | Inr red \<Rightarrow> wf_samples [merged red] \<and> ?Q [merged red] = ?Q dfs \<and>
            good_trace (length dfs) (trace red)" by blast
  then obtain red where red: "r = Inr red" by (cases r) auto
  have "wf_samples [merged red]" "?Q [merged red] = ?Q dfs" using c red by simp_all
  then show ?thesis using r red
    by (simp add: wf_samples_def joined_cells_single all_keys_single)
qed

lemma tables_nonempty: "tables p \<noteq> []"
  by (induction p) auto

lemma wf_samples_mset:
  assumes "mset ts = mset us" "wf_samples us"
  shows "wf_samples ts"
proof -
  have "set ts = set us" using assms(1) by (rule mset_eq_setD)
  moreover have "distinct (concat (map count_cols ts)) = distinct (concat (map count_cols us))"
    by (rule mset_eq_imp_distinct_iff[OF mset_concat_map_cong[OF assms(1)]])
  ultimately show ?thesis using assms(2) by (simp add: wf_samples_def)
qed

lemma add_count_keys: "fst ` set (add_count k c gs) = insert k (fst ` set gs)"
  by (induction gs) auto

lemma add_count_distinct:
  "distinct (map fst gs) \<Longrightarrow> distinct (map fst (add_count k c gs))"
proof (induction gs)
  case Nil
  then show ?case by simp
next
  case (Cons g gs)
  then show ?case using add_count_keys[of k c gs] by (auto simp: image_iff)
qed

lemma add_count_sum: "sum_list (map snd (add_count k c gs)) = sum_list (map snd gs) + c"
  by (induction gs) auto

lemma foldl_add_count:
  "distinct (map fst acc) \<Longrightarrow>
   distinct (map fst (foldl (\<lambda>acc r. add_count (fst r) (snd r) acc) acc rs)) \<and>
   fst ` set (foldl (\<lambda>acc r. add_count (fst r) (snd r) acc) acc rs) = fst ` set acc \<union> fst ` set rs \<and>
   sum_list (map snd (foldl (\<lambda>acc r. add_count (fst r) (snd r) acc) acc rs)) =
     sum_list (map snd acc) + sum_list (map snd rs)"
proof (induction rs arbitrary: acc)
  case Nil
  then show ?case by simp
next
  case (Cons r rs)
  have "distinct (map fst (add_count (fst r) (snd r) acc))"
    using Cons.prems by (rule add_count_distinct)
  from Cons.IH[OF this] show ?case
    by (simp add: add_count_keys add_count_sum)
qed

lemma group_sum_distinct: "distinct (map fst (group_sum rs))"
  using foldl_add_count[of "[]" rs] by (simp add: group_sum_def)

lemma group_sum_keys: "fst ` set (group_sum rs) = fst ` set rs"
  using foldl_add_count[of "[]" rs] by (simp add: group_sum_def)


lemma load_csv_file_wf: "wf_table (load_csv_file read_csv f)"
  using group_sum_distinct[of "keyed_rows (read_csv f)"]
  by (simp add: wf_table_def load_csv_file_def comp_def)


lemma load_csv_file_samples:
  "distinct file_names \<Longrightarrow> wf_samples (map (load_csv_file read_csv) file_names)"
proof -
  assume d: "distinct file_names"
  have "concat (map count_cols (map (load_csv_file read_csv) file_names)) =
        map (\<lambda>f. ''TCSL234rs_'' @ f) file_names"
    by (induction file_names) (simp_all add: load_csv_file_def)
  moreover have "distinct (map (\<lambda>f. ''TCSL234rs_'' @ f) file_names)"
    using d by (simp add: distinct_map inj_on_def)
  ultimately show ?thesis by (simp add: wf_samples_def load_csv_file_wf)
qed




lemma sort_desc_mset: "mset (sort_desc f xs) = mset xs"
  by (simp add: sort_desc_def)

lemma sort_desc_set: "set (sort_desc f xs) = set xs"
  by (simp add: sort_desc_def)

lemma sort_desc_sorted: "sorted_wrt (\<lambda>a b. f a \<ge> f b) (sort_desc f xs)"
proof -
  have "sorted (map (\<lambda>r. - f r) (sort_key (\<lambda>r. - f r) xs))" by (rule sorted_sort_key)
  then show ?thesis by (simp add: sort_desc_def sorted_map)
qed

lemma finalize_rows:
  "mset (map (\<lambda>r. (row_key r, row_cells r)) (final_rows (finalize df))) =
     mset (map (\<lambda>r. (fst r, fillna0 (snd r))) (rows df)) \<and>
   (\<forall>r \<in> set (final_rows (finalize df)).
      row_total r = sum_list (row_cells r) \<and>
      row_n_samples r = int (length (filter (\<lambda>v. 0 < v) (row_cells r)))) \<and>
   sorted_wrt (\<lambda>a b. row_total a \<ge> row_total b) (final_rows (finalize df)) \<and>
   sample_cols (finalize df) = count_cols df"
proof -
  define filled where "filled = map (\<lambda>r. (fst r, fillna0 (snd r))) (rows df)"
  define with_total where "with_total = map (\<lambda>r. (fst r, snd r, sum_list (snd r))) filled"
  define sorted1 where "sorted1 = sort_desc (\<lambda>r. snd (snd r)) with_total"
  define with_n where "with_n = map (\<lambda>r. \<lparr> row_key = fst r, row_cells = fst (snd r), row_total = snd (snd r),
        row_n_samples = int (length (filter (\<lambda>v. v > 0) (fst (snd r)))) \<rparr>) sorted1"
  have fin: "final_rows (finalize df) = sort_desc row_total with_n" "sample_cols (finalize df) = count_cols df"
    by (simp_all add: finalize_def Let_def with_n_def sorted1_def with_total_def filled_def)
  have "mset (map (\<lambda>r. (row_key r, row_cells r)) (sort_desc row_total with_n)) =
        image_mset (\<lambda>r. (row_key r, row_cells r)) (mset with_n)"
    by (metis mset_map sort_desc_mset)
  also have "\<dots> = image_mset (\<lambda>r. (fst r, fst (snd r))) (mset sorted1)"
    by (simp add: with_n_def multiset.map_comp comp_def)
  also have "\<dots> = image_mset (\<lambda>r. (fst r, fst (snd r))) (mset with_total)"
    by (simp add: sorted1_def sort_desc_mset)
  also have "\<dots> = mset filled"
    by (simp add: with_total_def multiset.map_comp comp_def)
  finally have A: "mset (map (\<lambda>r. (row_key r, row_cells r)) (sort_desc row_total with_n)) = mset filled" .
  have wt: "\<forall>r \<in> set with_total. snd (snd r) = sum_list (fst (snd r))"
    by (auto simp: with_total_def)
  have B: "\<forall>r \<in> set (sort_desc row_total with_n).
      row_total r = sum_list (row_cells r) \<and> row_n_samples r = int (length (filter (\<lambda>v. 0 < v) (row_cells r)))"
    using wt by (auto simp: sort_desc_set with_n_def sorted1_def)
  show ?thesis
    unfolding fin using A B sort_desc_sorted[of row_total with_n] by (simp add: filled_def)
qed

lemma reduce_dataframes_trace:
  assumes "dfs \<noteq> []"
  shows "\<exists>r. reduce_dataframes dfs = Some r \<and>
           (\<forall>red. r = Inr red \<longrightarrow> good_trace (length dfs) (trace red)) \<and>
           (distinct (concat (map count_cols dfs)) \<longrightarrow> (\<exists>red. r = Inr red))"
proof -
  have "\<exists>r. reduce_dataframes dfs = Some r \<and>
       (case r of Inl e \<Rightarrow> True
        | Inr red \<Rightarrow> True \<and> () = () \<and> good_trace (length dfs) (trace red))"
    by (rule reduce_dataframes_invariant[where Inv = "\<lambda>_. True" and Q = "\<lambda>_. ()" and E = "\<lambda>_. True",
          OF merge_step_any assms]) simp_all
  then obtain r where r: "reduce_dataframes dfs = Some r"
    and t: "case r of Inl e \<Rightarrow> True | Inr red \<Rightarrow> True \<and> () = () \<and> good_trace (length dfs) (trace red)"
    by blast
  have A: "\<forall>red. r = Inr red \<longrightarrow> good_trace (length dfs) (trace red)"
    using t by auto
  have B: "\<exists>red. r = Inr red" if d: "distinct (concat (map count_cols dfs))"
  proof -
    have "\<exists>r'. reduce_dataframes dfs = Some r' \<and>
       (case r' of Inl e \<Rightarrow> False
        | Inr red \<Rightarrow> distinct (concat (map count_cols [merged red])) \<and> () = () \<and>
            good_trace (length dfs) (trace red))"
      by (rule reduce_dataframes_invariant[where Inv = "\<lambda>ts. distinct (concat (map count_cols ts))"
            and Q = "\<lambda>_. ()" and E = "\<lambda>_. False", OF merge_step_labels assms d])
    then show ?thesis using r by (cases r) auto
  qed
  show ?thesis using r A B by blast
qed

lemma merges_tables: "merges p = length (tables p) - 1"
proof (induction p)
  case (Table t)
  then show ?case by simp
next
  case (Merge l r)
  have "0 < length (tables l)" "0 < length (tables r)"
    using tables_nonempty[of l] tables_nonempty[of r] by simp_all
  then show ?case using Merge by (simp del: length_greater_0_conv)
qed

lemma merge_dataframes_error: "merge_dataframes pair = Inl e \<Longrightarrow> e = MergeError"
  by (auto simp: merge_dataframes_def Let_def split: if_splits)

lemma pairings_of_start: "pairings_of dfs dfs"
proof -
  have "list_all2 (\<lambda>p t. run_pairing p = Inr t) (map Table dfs) dfs"
    by (simp add: list_all2_conv_all_nth)
  moreover have "concat (map tables (map Table dfs)) = dfs"
    by (induction dfs) simp_all
  ultimately show ?thesis unfolding pairings_of_def by blast
qed

lemma merge_step_pairings:
  assumes "pairings_of dfs (xs @ a # b # ys)"
  shows "case merge_dataframes (a, b) of
           Inl e \<Rightarrow> e = MergeError
         | Inr m \<Rightarrow> pairings_of dfs (xs @ m # ys) \<and> () = ()"
proof (cases "merge_dataframes (a, b)")
  case (Inl e)
  then show ?thesis using merge_dataframes_error[OF Inl] by simp
next
  case (Inr m)
  obtain ps where ps: "list_all2 (\<lambda>p t. run_pairing p = Inr t) ps (xs @ a # b # ys)"
    and c: "concat (map tables ps) = dfs"
    using assms unfolding pairings_of_def by blast
  from ps obtain pxs r1 where 1: "ps = pxs @ r1"
    "list_all2 (\<lambda>p t. run_pairing p = Inr t) pxs xs"
    "list_all2 (\<lambda>p t. run_pairing p = Inr t) r1 (a # b # ys)"
    by (auto simp: list_all2_append2)
  from 1(3) obtain pa pb pys where 2: "r1 = pa # pb # pys"
    "run_pairing pa = Inr a" "run_pairing pb = Inr b"
    "list_all2 (\<lambda>p t. run_pairing p = Inr t) pys ys"
    by (auto simp: list_all2_Cons2)
  have "list_all2 (\<lambda>p t. run_pairing p = Inr t) (pxs @ Merge pa pb # pys) (xs @ m # ys)"
    using 1(2) 2(2,3,4) Inr by (auto intro!: list_all2_appendI)
  moreover have "concat (map tables (pxs @ Merge pa pb # pys)) = dfs"
    using c by (simp add: 1(1) 2(1))
  ultimately have "pairings_of dfs (xs @ m # ys)" unfolding pairings_of_def by blast
  then show ?thesis using Inr by simp
qed

lemma reduce_dataframes_pairing:
  assumes "dfs \<noteq> []"
  shows "\<exists>r. reduce_dataframes dfs = Some r \<and>
           (case r of
              Inl e \<Rightarrow> e = MergeError
            | Inr red \<Rightarrow>
                (\<exists>p. tables p = dfs \<and> run_pairing p = Inr (merged red)) \<and>
                good_trace (length dfs) (trace red))"
proof -
  have "\<exists>r. reduce_dataframes dfs = Some r \<and>
       (case r of Inl e \<Rightarrow> e = MergeError
        | Inr red \<Rightarrow> pairings_of dfs [merged red] \<and> () = () \<and>
            good_trace (length dfs) (trace red))"
    by (rule reduce_dataframes_invariant[where Inv = "pairings_of dfs" and Q = "\<lambda>_. ()"
          and E = "\<lambda>e. e = MergeError", OF merge_step_pairings assms pairings_of_start])
  then obtain r where r: "reduce_dataframes dfs = Some r"
    and c: "case r of Inl e \<Rightarrow> e = MergeError
        | Inr red \<Rightarrow> pairings_of dfs [merged red] \<and> () = () \<and>
            good_trace (length dfs) (trace red)" by blast
  have "\<exists>p. tables p = dfs \<and> run_pairing p = Inr (merged red)"
    if "pairings_of dfs [merged red]" for red
  proof -
    from that obtain ps where ps: "list_all2 (\<lambda>p t. run_pairing p = Inr t) ps [merged red]"
      and cc: "concat (map tables ps) = dfs" unfolding pairings_of_def by blast
    from ps obtain p where "ps = [p]" "run_pairing p = Inr (merged red)"
      by (auto simp: list_all2_Cons2)
    then show ?thesis using cc by auto
  qed
  then have "case r of
              Inl e \<Rightarrow> e = MergeError
            | Inr red \<Rightarrow>
                (\<exists>p. tables p = dfs \<and> run_pairing p = Inr (merged red)) \<and>
                good_trace (length dfs) (trace red)"
    using c by (cases r) auto
  then show ?thesis using r by blast
qed

section \<open>Lemmas about the decoder\<close>

lemma first_some_Some:
  "first_some f xs = Some r \<Longrightarrow> \<exists>x \<in> set xs. f x = Some r"
  by (induction xs) (auto split: option.splits)

lemma first_some_None: "first_some f xs = None \<longleftrightarrow> (\<forall>x \<in> set xs. f x = None)"
  by (induction xs) (auto split: option.splits)

lemma fm_cons_cases:
  assumes "fm (a # as) segs s b = Some caps"
  shows "length (a # as) + length (concat segs) \<le> length s + b \<and>
    ((s = [] \<and> b \<noteq> 0 \<and> fm as segs [] (b - 1) = Some caps) \<or>
     (\<exists>c cs r. s = c # cs \<and> accepts a c \<and> fm as segs cs b = Some r \<and> caps = push c r) \<or>
     (\<exists>c cs r. s = c # cs \<and> b \<noteq> 0 \<and> fm as segs cs (b - 1) = Some r \<and> caps = push c r) \<or>
     (\<exists>c cs r. s = c # cs \<and> b \<noteq> 0 \<and> fm (a # as) segs cs (b - 1) = Some r \<and> caps = push c r) \<or>
     (\<exists>c cs. s = c # cs \<and> b \<noteq> 0 \<and> fm as segs s (b - 1) = Some caps))"
  using assms
  apply (subst (asm) fm.simps)
  apply (cases s)
   apply (simp split: if_splits)
  apply (simp split: if_splits option.splits)
  done

lemma concat_push: "caps \<noteq> [] \<Longrightarrow> concat (push c caps) = c # concat caps"
  by (cases caps) (simp_all add: push_def)

lemma seg_aligned_nonempty: "seg_aligned (as # segs) caps k \<Longrightarrow> caps \<noteq> []"
  by (auto elim: seg_aligned.cases)

lemma seg_aligned_head:
  assumes "seg_aligned (as # segs) caps k"
  obtains x xs m n where "caps = x # xs" "k = m + n" "aligned as x m" "seg_aligned segs xs n"
  using assms by (auto elim: seg_aligned.cases)

lemma seg_aligned_delete:
  "seg_aligned (as # segs) caps k \<Longrightarrow> seg_aligned ((a # as) # segs) caps (Suc k)"
proof -
  assume "seg_aligned (as # segs) caps k"
  then obtain x xs m n where c: "caps = x # xs" "k = m + n" "aligned as x m" "seg_aligned segs xs n"
    by (rule seg_aligned_head)
  have "aligned (a # as) x (Suc m)" using c(3) by (rule al_delete)
  then have "seg_aligned ((a # as) # segs) (x # xs) (Suc m + n)" using c(4) by (rule seg_step)
  then show ?thesis using c by simp
qed

lemma seg_aligned_exact:
  "accepts a c \<Longrightarrow> seg_aligned (as # segs) caps k \<Longrightarrow>
   seg_aligned ((a # as) # segs) (push c caps) k"
proof -
  assume a: "accepts a c" and "seg_aligned (as # segs) caps k"
  then obtain x xs m n where c: "caps = x # xs" "k = m + n" "aligned as x m" "seg_aligned segs xs n"
    by (auto elim: seg_aligned_head)
  have "aligned (a # as) (c # x) m" using a c(3) by (rule al_exact)
  then have "seg_aligned ((a # as) # segs) ((c # x) # xs) (m + n)" using c(4) by (rule seg_step)
  then show ?thesis using c by (simp add: push_def)
qed

lemma seg_aligned_subst:
  "seg_aligned (as # segs) caps k \<Longrightarrow> seg_aligned ((a # as) # segs) (push c caps) (Suc k)"
proof -
  assume "seg_aligned (as # segs) caps k"
  then obtain x xs m n where c: "caps = x # xs" "k = m + n" "aligned as x m" "seg_aligned segs xs n"
    by (rule seg_aligned_head)
  have "aligned (a # as) (c # x) (Suc m)" using c(3) by (rule al_subst)
  then have "seg_aligned ((a # as) # segs) ((c # x) # xs) (Suc m + n)" using c(4) by (rule seg_step)
  then show ?thesis using c by (simp add: push_def)
qed

lemma seg_aligned_insert:
  "seg_aligned (as # segs) caps k \<Longrightarrow> seg_aligned (as # segs) (push c caps) (Suc k)"
proof -
  assume "seg_aligned (as # segs) caps k"
  then obtain x xs m n where c: "caps = x # xs" "k = m + n" "aligned as x m" "seg_aligned segs xs n"
    by (rule seg_aligned_head)
  have "aligned as (c # x) (Suc m)" using c(3) by (rule al_insert)
  then have "seg_aligned (as # segs) ((c # x) # xs) (Suc m + n)" using c(4) by (rule seg_step)
  then show ?thesis using c by (simp add: push_def)
qed

lemma fm_sound:
  "fm as segs s b = Some caps \<Longrightarrow>
   \<exists>k rest. k \<le> b \<and> seg_aligned (as # segs) caps k \<and> s = concat caps @ rest"
proof (induction "length as + length (concat segs) + length segs + length s"
       arbitrary: as segs s b caps rule: less_induct)
  case less
  show ?case
  proof (cases as)
    case Nil
    show ?thesis
    proof (cases segs)
      case Nil': Nil
      have "caps = [[]]" using less.prems by (simp add: Nil Nil' fm.simps)
      moreover have "seg_aligned ([] # []) ([[]]) (0 + 0)"
        by (intro seg_step al_end seg_end)
      ultimately have "0 \<le> b \<and> seg_aligned (as # segs) caps 0 \<and> s = concat caps @ s"
        by (simp add: Nil Nil')
      then show ?thesis by blast
    next
      case (Cons seg segs')
      obtain caps' where c: "fm seg segs' s b = Some caps'" "caps = [] # caps'"
        using less.prems by (auto simp: Nil Cons fm.simps)
      have "length seg + length (concat segs') + length segs' + length s
            < length as + length (concat segs) + length segs + length s"
        by (simp add: Nil Cons)
      from less.hyps[OF this c(1)] obtain k rest where
        k: "k \<le> b" "seg_aligned (seg # segs') caps' k" "s = concat caps' @ rest" by blast
      have "seg_aligned ([] # seg # segs') ([] # caps') (0 + k)"
        using al_end k(2) by (rule seg_step)
      then show ?thesis using k c(2) by (auto simp: Nil Cons)
    qed
  next
    case (Cons a as')
    note inv = fm_cons_cases[OF less.prems[unfolded Cons]]
    let ?P = "\<lambda>as s. length as + length (concat segs) + length segs + length s"
    from inv consider
        (del0) "s = []" "b \<noteq> 0" "fm as' segs [] (b - 1) = Some caps"
      | (exact) c cs r where "s = c # cs" "accepts a c" "fm as' segs cs b = Some r" "caps = push c r"
      | (subst) c cs r where "s = c # cs" "b \<noteq> 0" "fm as' segs cs (b - 1) = Some r" "caps = push c r"
      | (ins) c cs r where "s = c # cs" "b \<noteq> 0" "fm (a # as') segs cs (b - 1) = Some r" "caps = push c r"
      | (del) c cs where "s = c # cs" "b \<noteq> 0" "fm as' segs s (b - 1) = Some caps"
      by blast
    then show ?thesis
    proof cases
      case del0
      have "?P as' [] < ?P as s" by (simp add: Cons)
      from less.hyps[OF this del0(3)] obtain k rest where
        k: "k \<le> b - 1" "seg_aligned (as' # segs) caps k" "[] = concat caps @ rest" by blast
      have "seg_aligned ((a # as') # segs) caps (Suc k)" using k(2) by (rule seg_aligned_delete)
      moreover have "Suc k \<le> b" using k(1) del0(2) by simp
      ultimately show ?thesis using k(3) del0(1) Cons by blast
    next
      case exact
      have "?P as' cs < ?P as s" by (simp add: Cons exact(1))
      from less.hyps[OF this exact(3)] obtain k rest where
        k: "k \<le> b" "seg_aligned (as' # segs) r k" "cs = concat r @ rest" by blast
      have "seg_aligned ((a # as') # segs) (push c r) k"
        using exact(2) k(2) by (rule seg_aligned_exact)
      moreover have "s = concat (push c r) @ rest"
        using k(3) exact(1) concat_push[OF seg_aligned_nonempty[OF k(2)]] by simp
      ultimately show ?thesis using k(1) exact(4) Cons by blast
    next
      case subst
      have "?P as' cs < ?P as s" by (simp add: Cons subst(1))
      from less.hyps[OF this subst(3)] obtain k rest where
        k: "k \<le> b - 1" "seg_aligned (as' # segs) r k" "cs = concat r @ rest" by blast
      have "seg_aligned ((a # as') # segs) (push c r) (Suc k)"
        using k(2) by (rule seg_aligned_subst)
      moreover have "s = concat (push c r) @ rest"
        using k(3) subst(1) concat_push[OF seg_aligned_nonempty[OF k(2)]] by simp
      moreover have "Suc k \<le> b" using k(1) subst(2) by simp
      ultimately show ?thesis using subst(4) Cons by blast
    next
      case ins
      have "?P (a # as') cs < ?P as s" by (simp add: Cons ins(1))
      from less.hyps[OF this ins(3)] obtain k rest where
        k: "k \<le> b - 1" "seg_aligned ((a # as') # segs) r k" "cs = concat r @ rest" by blast
      have "seg_aligned ((a # as') # segs) (push c r) (Suc k)"
        using k(2) by (rule seg_aligned_insert)
      moreover have "s = concat (push c r) @ rest"
        using k(3) ins(1) concat_push[OF seg_aligned_nonempty[OF k(2)]] by simp
      moreover have "Suc k \<le> b" using k(1) ins(2) by simp
      ultimately show ?thesis using ins(4) Cons by blast
    next
      case del
      have "?P as' s < ?P as s" by (simp add: Cons)
      from less.hyps[OF this del(3)] obtain k rest where
        k: "k \<le> b - 1" "seg_aligned (as' # segs) caps k" "s = concat caps @ rest" by blast
      have "seg_aligned ((a # as') # segs) caps (Suc k)" using k(2) by (rule seg_aligned_delete)
      moreover have "Suc k \<le> b" using k(1) del(2) by simp
      ultimately show ?thesis using k(3) Cons by blast
    qed
  qed
qed

lemma length8:
  assumes "length (caps :: 'a list) = 8"
  obtains c0 c1 c2 c3 c4 c5 c6 c7 where "caps = [c0, c1, c2, c3, c4, c5, c6, c7]"
proof -
  from assms obtain c0 r0 where 0: "caps = c0 # r0" "length r0 = 7" by (cases caps) auto
  then obtain c1 r1 where 1: "r0 = c1 # r1" "length r1 = 6" by (cases r0) auto
  then obtain c2 r2 where 2: "r1 = c2 # r2" "length r2 = 5" by (cases r1) auto
  then obtain c3 r3 where 3: "r2 = c3 # r3" "length r3 = 4" by (cases r2) auto
  then obtain c4 r4 where 4: "r3 = c4 # r4" "length r4 = 3" by (cases r3) auto
  then obtain c5 r5 where 5: "r4 = c5 # r5" "length r5 = 2" by (cases r4) auto
  then obtain c6 r6 where 6: "r5 = c6 # r6" "length r6 = 1" by (cases r5) auto
  then obtain c7 where 7: "r6 = [c7]" by (cases r6) auto
  show ?thesis using that 0 1 2 3 4 5 6 7 by simp
qed

lemma py_int_ids:
  "py_int ''90'' = Some 90" "py_int ''30'' = Some 30" "py_int ''31'' = Some 31"
  "py_int ''34'' = Some 34" "py_int ''60'' = Some 60" "py_int ''63'' = Some 63"
  by code_simp+

lemmas process_simps =
  process_bc_seq_line_def groupdict_of_def named_captures_def segment_names_def
  group_names_def SL_SEQS_def starts_with_def last_field_def py_int_ids dict_get_def dict_del_def
  Let_def

lemma groupdict_of_cases:
  "groupdict_of ((''90'', l), [c0, c1, c2, c3, c4, c5, c6, c7]) =
     [(''itam_bc_o'', Some c1), (''itam_umi_o'', Some c2), (''costim_bc_o'', Some c4),
      (''sublibrary_90'', Some c5), (''sublibrary_30'', None), (''sublibrary_31'', None),
      (''sublibrary_34'', None), (''sublibrary_60'', None), (''sublibrary_63'', None),
      (''costim_umi_o'', Some c6)]"
  "groupdict_of ((''30'', l), [c0, c1, c2, c3, c4, c5, c6, c7]) =
     [(''itam_bc_o'', Some c1), (''itam_umi_o'', Some c2), (''costim_bc_o'', Some c4),
      (''sublibrary_90'', None), (''sublibrary_30'', Some c5), (''sublibrary_31'', None),
      (''sublibrary_34'', None), (''sublibrary_60'', None), (''sublibrary_63'', None),
      (''costim_umi_o'', Some c6)]"
  "groupdict_of ((''31'', l), [c0, c1, c2, c3, c4, c5, c6, c7]) =
     [(''itam_bc_o'', Some c1), (''itam_umi_o'', Some c2), (''costim_bc_o'', Some c4),
      (''sublibrary_90'', None), (''sublibrary_30'', None), (''sublibrary_31'', Some c5),
      (''sublibrary_34'', None), (''sublibrary_60'', None), (''sublibrary_63'', None),
      (''costim_umi_o'', Some c6)]"
  "groupdict_of ((''34'', l), [c0, c1, c2, c3, c4, c5, c6, c7]) =
     [(''itam_bc_o'', Some c1), (''itam_umi_o'', Some c2), (''costim_bc_o'', Some c4),
      (''sublibrary_90'', None), (''sublibrary_30'', None), (''sublibrary_31'', None),
      (''sublibrary_34'', Some c5), (''sublibrary_60'', None), (''sublibrary_63'', None),
      (''costim_umi_o'', Some c6)]"
  "groupdict_of ((''60'', l), [c0, c1, c2, c3, c4, c5, c6, c7]) =
     [(''itam_bc_o'', Some c1), (''itam_umi_o'', Some c2), (''costim_bc_o'', Some c4),
      (''sublibrary_90'', None), (''sublibrary_30'', None), (''sublibrary_31'', None),
      (''sublibrary_34'', None), (''sublibrary_60'', Some c5), (''sublibrary_63'', None),
      (''costim_umi_o'', Some c6)]"
  "groupdict_of ((''63'', l), [c0, c1, c2, c3, c4, c5, c6, c7]) =
     [(''itam_bc_o'', Some c1), (''itam_umi_o'', Some c2), (''costim_bc_o'', Some c4),
      (''sublibrary_90'', None), (''sublibrary_30'', None), (''sublibrary_31'', None),
      (''sublibrary_34'', None), (''sublibrary_60'', None), (''sublibrary_63'', Some c5),
      (''costim_umi_o'', Some c6)]"
  by (simp_all add: groupdict_of_def named_captures_def segment_names_def group_names_def SL_SEQS_def)

lemma process_groupdict:
  assumes "sl \<in> set SL_SEQS" "length caps = 8"
    and "match_groupdict rx seq_str = Some (groupdict_of (sl, caps))"
  shows "process_bc_seq_line rx seq_str line_count = Inr (Some (decoded sl caps line_count))"
proof -
  obtain c0 c1 c2 c3 c4 c5 c6 c7 where caps: "caps = [c0, c1, c2, c3, c4, c5, c6, c7]"
    using assms(2) by (rule length8)
  obtain i l where sl: "sl = (i, l)" by (cases sl)
  have i: "i = ''90'' \<or> i = ''30'' \<or> i = ''31'' \<or> i = ''34'' \<or> i = ''60'' \<or> i = ''63''"
    using assms(1) by (auto simp: SL_SEQS_def sl)
  show ?thesis
    using i assms(3) unfolding sl caps
    by (elim disjE)
       (simp_all add: groupdict_of_cases process_bc_seq_line_def starts_with_def last_field_def
          py_int_ids dict_get_def dict_del_def Let_def decoded_def sl_number_def)
qed

lemma aligned_length:
  "aligned as x k \<Longrightarrow> length as \<le> length x + k \<and> length x \<le> length as + k"
  by (induction rule: aligned.induct) auto

lemma aligned_append:
  "aligned as x m \<Longrightarrow> aligned bs y n \<Longrightarrow> aligned (as @ bs) (x @ y) (m + n)"
proof (induction rule: aligned.induct)
  case al_end
  then show ?case by simp
next
  case (al_exact a c as s k)
  then show ?case using aligned.al_exact by simp
next
  case (al_subst as s k a c)
  then show ?case using aligned.al_subst by simp
next
  case (al_delete as s k a)
  then show ?case using aligned.al_delete by simp
next
  case (al_insert as s k c)
  then show ?case using aligned.al_insert by simp
qed

lemma seg_aligned_flat:
  "seg_aligned segs caps k \<Longrightarrow> aligned (concat segs) (concat caps) k"
  by (induction rule: seg_aligned.induct) (auto intro: al_end aligned_append)

lemma seg_aligned_length: "seg_aligned segs caps k \<Longrightarrow> length caps = length segs"
  by (induction rule: seg_aligned.induct) auto

lemma fm_not_pruned:
  assumes "fm as segs s b \<noteq> None"
  shows "length as + length (concat segs) \<le> length s + b"
proof -
  obtain caps where "fm as segs s b = Some caps" using assms by blast
  then obtain k rest where k: "k \<le> b" "seg_aligned (as # segs) caps k" "s = concat caps @ rest"
    using fm_sound by blast
  have "aligned (concat (as # segs)) (concat caps) k" using k(2) by (rule seg_aligned_flat)
  then have "length (concat (as # segs)) \<le> length (concat caps) + k"
    using aligned_length by blast
  then show ?thesis using k(1,3) by simp
qed

lemma fm_step_exact:
  assumes "accepts a c" "fm as segs cs b \<noteq> None"
    and "length (a # as) + length (concat segs) \<le> length (c # cs) + b"
  shows "fm (a # as) segs (c # cs) b \<noteq> None"
proof -
  obtain y where y: "fm as segs cs b = Some y" using assms(2) by blast
  show ?thesis using assms(1,3) y by (subst fm.simps) simp
qed

lemma fm_step_subst:
  assumes "b \<noteq> 0" "fm as segs cs (b - 1) \<noteq> None"
    and "length (a # as) + length (concat segs) \<le> length (c # cs) + b"
  shows "fm (a # as) segs (c # cs) b \<noteq> None"
proof -
  obtain y where y: "fm as segs cs (b - 1) = Some y" using assms(2) by blast
  show ?thesis using assms(1,3) y by (subst fm.simps) (simp split: option.splits)
qed

lemma fm_step_insert:
  assumes "b \<noteq> 0" "fm (a # as) segs cs (b - 1) \<noteq> None"
    and "length (a # as) + length (concat segs) \<le> length (c # cs) + b"
  shows "fm (a # as) segs (c # cs) b \<noteq> None"
proof -
  obtain y where y: "fm (a # as) segs cs (b - 1) = Some y" using assms(2) by blast
  show ?thesis using assms(1,3) y by (subst fm.simps) (simp split: option.splits)
qed

lemma fm_step_delete:
  assumes "b \<noteq> 0" "fm as segs s (b - 1) \<noteq> None"
    and "length (a # as) + length (concat segs) \<le> length s + b"
  shows "fm (a # as) segs s b \<noteq> None"
proof -
  obtain y where y: "fm as segs s (b - 1) = Some y" using assms(2) by blast
  show ?thesis using assms(1,3) y by (subst fm.simps) (auto split: option.splits list.splits)
qed

lemma fm_skip: "fm [] (seg # segs) s b \<noteq> None \<longleftrightarrow> fm seg segs s b \<noteq> None"
  by (simp add: fm.simps)

lemma fm_empty: "concat segs = [] \<Longrightarrow> fm [] segs s b \<noteq> None"
  by (induction segs) (auto simp: fm.simps)

lemma fm_front_insert:
  "fm as segs t b \<noteq> None \<Longrightarrow> fm as segs (c # t) (Suc b) \<noteq> None"
proof (induction segs arbitrary: as)
  case Nil
  show ?case
  proof (cases as)
    case Nil
    then show ?thesis by (simp add: fm.simps)
  next
    case (Cons a as')
    have "length (a # as') + length (concat []) \<le> length (c # t) + Suc b"
      using fm_not_pruned[OF Nil.prems] Cons by simp
    then show ?thesis
      unfolding Cons using Nil.prems[unfolded Cons] by (intro fm_step_insert) simp_all
  qed
next
  case (Cons seg segs)
  show ?case
  proof (cases as)
    case Nil
    have "fm seg segs t b \<noteq> None" using Cons.prems unfolding Nil fm_skip .
    then have "fm seg segs (c # t) (Suc b) \<noteq> None" by (rule Cons.IH)
    then show ?thesis unfolding Nil fm_skip .
  next
    case (Cons a as')
    have "length (a # as') + length (concat (seg # segs)) \<le> length (c # t) + Suc b"
      using fm_not_pruned[OF Cons.prems] Cons by simp
    then show ?thesis
      unfolding Cons using Cons.prems[unfolded Cons] by (intro fm_step_insert) simp_all
  qed
qed

lemma decomposition_induct:
  assumes step: "\<And>a as segs. items = (a # as) @ concat segs \<Longrightarrow> R (a # as) segs"
    and skip: "\<And>seg segs. R seg segs \<Longrightarrow> R [] (seg # segs)"
    and ne: "items \<noteq> []"
  shows "items = as @ concat segs \<Longrightarrow> R as segs"
proof (induction segs arbitrary: as)
  case Nil
  then show ?case using step[of "hd as" "tl as" "[]"] ne by (cases as) auto
next
  case (Cons seg segs)
  show ?case
  proof (cases as)
    case Nil
    have "items = seg @ concat segs" using Cons.prems Nil by simp
    then have "R seg segs" by (rule Cons.IH)
    then show ?thesis unfolding Nil by (rule skip)
  next
    case (Cons a as')
    then show ?thesis using step[of a as' "seg # segs"] Cons.prems by simp
  qed
qed

lemma fm_complete_flat:
  "aligned items p k \<Longrightarrow> items = as @ concat segs \<Longrightarrow> k \<le> b \<Longrightarrow>
   fm as segs (p @ rest) b \<noteq> None"
proof (induction arbitrary: as segs b rule: aligned.induct)
  case al_end
  then show ?case using fm_empty[of segs] by simp
next
  case (al_exact a c its s k)
  have al: "aligned (a # its) (c # s) k" using al_exact.hyps by (rule aligned.al_exact)
  have len: "length (a # its) \<le> length (c # s) + k" using aligned_length[OF al] by simp
  let ?R = "\<lambda>as segs. fm as segs ((c # s) @ rest) b \<noteq> None"
  show ?case
  proof (rule decomposition_induct[where R = ?R and items = "a # its"])
    fix a' as' segs'
    assume d: "a # its = (a' # as') @ concat segs'"
    then have "fm as' segs' (s @ rest) b \<noteq> None"
      using al_exact.IH[of as' segs' b] al_exact.prems(2) by simp
    moreover have "length (a' # as') + length (concat segs') \<le> length (c # s @ rest) + b"
    proof -
      have "length (a' # as') + length (concat segs') = length (a # its)"
        using arg_cong[OF d, of length] by simp
      then show ?thesis using len al_exact.prems(2) by simp
    qed
    moreover have "accepts a' c" using al_exact.hyps(1) d by simp
    ultimately have "fm (a' # as') segs' (c # s @ rest) b \<noteq> None"
      by (intro fm_step_exact)
    then show "fm (a' # as') segs' ((c # s) @ rest) b \<noteq> None" by simp
  next
    show "\<And>seg segs. ?R seg segs \<Longrightarrow> ?R [] (seg # segs)" using fm_skip by blast
  qed (simp, rule al_exact.prems(1))
next
  case (al_subst its s k a c)
  have al: "aligned (a # its) (c # s) (Suc k)" using al_subst.hyps by (rule aligned.al_subst)
  have len: "length (a # its) \<le> length (c # s) + Suc k" using aligned_length[OF al] by simp
  let ?R = "\<lambda>as segs. fm as segs ((c # s) @ rest) b \<noteq> None"
  have b: "b \<noteq> 0" "k \<le> b - 1" using al_subst.prems(2) by simp_all
  show ?case
  proof (rule decomposition_induct[where R = ?R and items = "a # its"])
    fix a' as' segs'
    assume d: "a # its = (a' # as') @ concat segs'"
    then have "fm as' segs' (s @ rest) (b - 1) \<noteq> None"
      using al_subst.IH[of as' segs' "b - 1"] b by simp
    moreover have "length (a' # as') + length (concat segs') \<le> length (c # s @ rest) + b"
    proof -
      have "length (a' # as') + length (concat segs') = length (a # its)"
        using arg_cong[OF d, of length] by simp
      then show ?thesis using len al_subst.prems(2) by simp
    qed
    ultimately have "fm (a' # as') segs' (c # s @ rest) b \<noteq> None"
      using b(1) by (intro fm_step_subst)
    then show "fm (a' # as') segs' ((c # s) @ rest) b \<noteq> None" by simp
  next
    show "\<And>seg segs. ?R seg segs \<Longrightarrow> ?R [] (seg # segs)" using fm_skip by blast
  qed (simp, rule al_subst.prems(1))
next
  case (al_delete its s k a)
  have al: "aligned (a # its) s (Suc k)" using al_delete.hyps by (rule aligned.al_delete)
  have len: "length (a # its) \<le> length s + Suc k" using aligned_length[OF al] by simp
  let ?R = "\<lambda>as segs. fm as segs (s @ rest) b \<noteq> None"
  have b: "b \<noteq> 0" "k \<le> b - 1" using al_delete.prems(2) by simp_all
  show ?case
  proof (rule decomposition_induct[where R = ?R and items = "a # its"])
    fix a' as' segs'
    assume d: "a # its = (a' # as') @ concat segs'"
    then have "fm as' segs' (s @ rest) (b - 1) \<noteq> None"
      using al_delete.IH[of as' segs' "b - 1"] b by simp
    moreover have "length (a' # as') + length (concat segs') \<le> length (s @ rest) + b"
    proof -
      have "length (a' # as') + length (concat segs') = length (a # its)"
        using arg_cong[OF d, of length] by simp
      then show ?thesis using len al_delete.prems(2) by simp
    qed
    ultimately show "fm (a' # as') segs' (s @ rest) b \<noteq> None"
      using b(1) by (intro fm_step_delete)
  next
    show "\<And>seg segs. ?R seg segs \<Longrightarrow> ?R [] (seg # segs)" using fm_skip by blast
  qed (simp, rule al_delete.prems(1))
next
  case (al_insert its s k c)
  have b: "b \<noteq> 0" "k \<le> b - 1" using al_insert.prems(2) by simp_all
  have "fm as segs (s @ rest) (b - 1) \<noteq> None"
    using al_insert.IH[OF al_insert.prems(1) b(2)] .
  then have "fm as segs (c # s @ rest) (Suc (b - 1)) \<noteq> None" by (rule fm_front_insert)
  then show ?case using b(1) by simp
qed

lemma header_cols_False: "header_cols False = ''count'' # key_cols"
  by (simp add: header_cols_def key_cols_def)

lemma cell_frame_row:
  "c \<in> set cols \<Longrightarrow> cell cols (map (dict_get d) cols) c = dict_get d c"
  by (simp add: cell_def dict_get_def[of "zip cols (map (dict_get d) cols)"] map_of_zip_map)

lemma length6:
  assumes "length (k :: 'a list) = 6"
  obtains x1 x2 x3 x4 x5 x6 where "k = [x1, x2, x3, x4, x5, x6]"
proof -
  from assms obtain x1 r1 where 1: "k = x1 # r1" "length r1 = 5" by (cases k) auto
  then obtain x2 r2 where 2: "r1 = x2 # r2" "length r2 = 4" by (cases r1) auto
  then obtain x3 r3 where 3: "r2 = x3 # r3" "length r3 = 3" by (cases r2) auto
  then obtain x4 r4 where 4: "r3 = x4 # r4" "length r4 = 2" by (cases r3) auto
  then obtain x5 r5 where 5: "r4 = x5 # r5" "length r5 = 1" by (cases r4) auto
  then obtain x6 where 6: "r5 = [x6]" by (cases r5) auto
  show ?thesis using that 1 2 3 4 5 6 by simp
qed

lemma select_grouped_row:
  assumes "length k = 6"
  shows "map (cell (key_cols @ [''count'']) (k @ [PyInt c])) (''count'' # key_cols) = PyInt c # k"
proof -
  obtain x1 x2 x3 x4 x5 x6 where k: "k = [x1, x2, x3, x4, x5, x6]"
    using assms by (rule length6)
  show ?thesis by (simp add: k key_cols_def cell_def dict_get_def)
qed

lemma grouped_count_cell:
  assumes "length k = 6"
  shows "cell (''count'' # key_cols) (PyInt c # k) ''count'' = PyInt c"
  by (simp add: cell_def dict_get_def)

lemma filter_Nil_subset: "filter (\<lambda>c. c \<notin> S) xs = [] \<longleftrightarrow> set xs \<subseteq> S"
  by (induction xs) auto


lemma insort_key_map:
  "insort_key f (g x) (map g xs) = map g (insort_key (\<lambda>a. f (g a)) x xs)"
  by (induction xs) auto

lemma sort_key_map:
  "sort_key f (map g xs) = map g (sort_key (\<lambda>a. f (g a)) xs)"
  by (induction xs) (auto simp: insort_key_map)

lemma insort_key_cong_on:
  "f x = g x \<Longrightarrow> (\<forall>y \<in> set xs. f y = g y) \<Longrightarrow> insort_key f x xs = insort_key g x xs"
  by (induction xs) auto

lemma sort_key_cong_on:
  "(\<forall>y \<in> set xs. f y = g y) \<Longrightarrow> sort_key f xs = sort_key g xs"
proof (induction xs)
  case Nil
  then show ?case by simp
next
  case (Cons x xs)
  have "sort_key f xs = sort_key g xs" using Cons by simp
  moreover have "insort_key f x (sort_key g xs) = insort_key g x (sort_key g xs)"
    using Cons.prems by (intro insort_key_cong_on) simp_all
  ultimately show ?case by simp
qed

lemma make_table_grouped:
  assumes "make_table False ds = Inr df"
  shows "frame_cols df = ''count'' # key_cols \<and>
         frame_rows df =
           map (\<lambda>g. PyInt (snd g) # fst g)
             (sort_desc snd
               (group_sum (map (\<lambda>d. (map (dict_get d) key_cols, count_of d))
                               (filter complete_record ds))))"
proof -
  define F where "F = frame_of_dicts ds"
  define cols where "cols = frame_cols F"
  have rowsF: "frame_rows F = map (\<lambda>d. map (dict_get d) cols) ds"
    by (simp add: F_def cols_def frame_of_dicts_def Let_def)
  from assms obtain G where G: "groupby_sum key_cols F = Inr G"
    and sel: "select_cols (''count'' # key_cols) (sort_by_count G) = Inr df"
    by (auto simp: make_table_def Let_def header_cols_False F_def split: sum.splits)
  have nomiss: "filter (\<lambda>c. c \<notin> set cols) (key_cols @ [''count'']) = []"
    using G unfolding groupby_sum_def cols_def
    by (cases "filter (\<lambda>c. c \<notin> set (frame_cols F)) (key_cols @ [''count''])") simp_all
  then have sub: "set (key_cols @ [''count'']) \<subseteq> set cols"
    by (simp only: filter_Nil_subset)
  have cellF: "cell cols (map (dict_get d) cols) c = dict_get d c"
    if "c \<in> set (key_cols @ [''count''])" for d c
    using that sub by (intro cell_frame_row) auto
  define keyed where "keyed = map (\<lambda>d. (map (dict_get d) key_cols, count_of d))
                               (filter complete_record ds)"
  have keyed_eq: "map (\<lambda>row. (map (cell cols row) key_cols, count_int (cell cols row ''count'')))
            (filter (\<lambda>row. PyNone \<notin> set (map (cell cols row) key_cols)) (frame_rows F)) = keyed"
  proof -
    have k: "map (cell cols (map (dict_get d) cols)) key_cols = map (dict_get d) key_cols" for d
      using cellF by simp
    have c: "count_int (cell cols (map (dict_get d) cols) ''count'') = count_of d" for d
      using cellF by (simp add: count_of_def)
    show ?thesis
      unfolding rowsF keyed_def filter_map map_map comp_def k c complete_record_def ..
  qed
  have G_eq: "G = \<lparr> frame_cols = key_cols @ [''count''],
                     frame_rows = map (\<lambda>g. fst g @ [PyInt (snd g)]) (group_sum keyed) \<rparr>"
    using G keyed_eq unfolding groupby_sum_def Let_def nomiss[unfolded cols_def] cols_def
    by simp
  have len: "length (fst g) = 6" if "g \<in> set (group_sum keyed)" for g
  proof -
    have "fst g \<in> fst ` set keyed" using that group_sum_keys[of keyed] by blast
    then show ?thesis by (auto simp: keyed_def key_cols_def)
  qed
  have cnt: "count_int (cell (key_cols @ [''count'']) (fst g @ [PyInt (snd g)]) ''count'') = snd g"
    if hg: "g \<in> set (group_sum keyed)" for g
  proof -
    have "length (fst g) = 6" using hg by (rule len)
    then obtain x1 x2 x3 x4 x5 x6 where k: "fst g = [x1, x2, x3, x4, x5, x6]"
      by (rule length6)
    show ?thesis by (simp add: k key_cols_def cell_def dict_get_def count_int_def)
  qed
  have sorted_rows: "frame_rows (sort_by_count G) =
       map (\<lambda>g. fst g @ [PyInt (snd g)]) (sort_desc snd (group_sum keyed))"
  proof -
    have "sort_key (\<lambda>r. - count_int (cell (key_cols @ [''count'']) r ''count''))
            (map (\<lambda>g. fst g @ [PyInt (snd g)]) (group_sum keyed)) =
          map (\<lambda>g. fst g @ [PyInt (snd g)])
            (sort_key (\<lambda>g. - count_int (cell (key_cols @ [''count'']) (fst g @ [PyInt (snd g)]) ''count''))
               (group_sum keyed))"
      by (simp add: sort_key_map)
    also have "sort_key (\<lambda>g. - count_int (cell (key_cols @ [''count'']) (fst g @ [PyInt (snd g)]) ''count''))
               (group_sum keyed) = sort_key (\<lambda>g. - snd g) (group_sum keyed)"
      using cnt by (intro sort_key_cong_on) simp
    finally show ?thesis by (simp add: sort_by_count_def G_eq sort_desc_def)
  qed
  have cols_sorted: "frame_cols (sort_by_count G) = key_cols @ [''count'']"
    by (simp add: sort_by_count_def G_eq)
  have "df = \<lparr> frame_cols = ''count'' # key_cols,
               frame_rows = map (\<lambda>row. map (cell (key_cols @ [''count'']) row) (''count'' # key_cols))
                                (frame_rows (sort_by_count G)) \<rparr>"
    using sel by (auto simp: select_cols_def cols_sorted split: list.splits)
  moreover have "map (\<lambda>row. map (cell (key_cols @ [''count'']) row) (''count'' # key_cols))
                   (frame_rows (sort_by_count G)) =
                 map (\<lambda>g. PyInt (snd g) # fst g) (sort_desc snd (group_sum keyed))"
    unfolding sorted_rows map_map comp_def
    using len select_grouped_row by (intro map_cong) (auto simp: sort_desc_set)
  ultimately show ?thesis by (simp add: keyed_def)
qed

lemma bc_match_sound:
  assumes "bc_match s = Some (sl, caps)"
  shows "sl \<in> set SL_SEQS \<and> fuzzy_match sl s caps \<and> length caps = 8"
proof -
  have "first_some (\<lambda>b. first_some (try_sl s b) SL_SEQS) [0..<Suc MAX_MATCH_DIST] = Some (sl, caps)"
    using assms unfolding bc_match_def .
  from first_some_Some[OF this] obtain b where b: "b \<in> set [0..<Suc MAX_MATCH_DIST]"
    and 1: "first_some (try_sl s b) SL_SEQS = Some (sl, caps)"
    by blast
  from first_some_Some[OF 1] obtain sl' where sl': "sl' \<in> set SL_SEQS"
    and 2: "try_sl s b sl' = Some (sl, caps)"
    by blast
  from 2 have eq: "sl' = sl" and 3: "fm_segments (segments (snd sl)) s b = Some caps"
    by (auto simp: try_sl_def)
  define R where "R = [shape itam_bc, shape itam_umi, shape jct_str, costim_bc,
      shape (snd sl), costim_umi, shape post_str]"
  have segs: "segments (snd sl) = shape pre_str # R"
    by (simp add: segments_def R_def)
  have "fm (shape pre_str) R s b = Some caps"
    using 3 unfolding segs by (simp add: fm_segments_def)
  from fm_sound[OF this] obtain k rest where k: "k \<le> b"
    "seg_aligned (shape pre_str # R) caps k" "s = concat caps @ rest"
    by blast
  have sa: "seg_aligned (segments (snd sl)) caps k" using k(2) unfolding segs .
  have "b \<le> MAX_MATCH_DIST" using b by auto
  then have "k \<le> MAX_MATCH_DIST" using k(1) by (rule order_trans[rotated])
  then have "fuzzy_match sl s caps" unfolding fuzzy_match_def using sa k(3) by blast
  moreover have "length caps = 8" using seg_aligned_length[OF sa] by (simp add: segs R_def)
  ultimately show ?thesis using sl' eq by simp
qed

lemma bc_match_complete:
  assumes "sl \<in> set SL_SEQS" "fuzzy_match sl s caps"
  shows "bc_match s \<noteq> None"
proof -
  from assms(2) obtain k rest where k: "k \<le> MAX_MATCH_DIST"
    "seg_aligned (segments (snd sl)) caps k" "s = concat caps @ rest"
    unfolding fuzzy_match_def by blast
  define R where "R = [shape itam_bc, shape itam_umi, shape jct_str, costim_bc,
      shape (snd sl), costim_umi, shape post_str]"
  have segs: "segments (snd sl) = shape pre_str # R"
    by (simp add: segments_def R_def)
  have al: "aligned (concat (segments (snd sl))) (concat caps) k"
    using k(2) by (rule seg_aligned_flat)
  have c: "concat (segments (snd sl)) = shape pre_str @ concat R"
    unfolding segs by simp
  have "fm (shape pre_str) R (concat caps @ rest) MAX_MATCH_DIST \<noteq> None"
    using al c k(1) by (rule fm_complete_flat)
  then have "fm_segments (segments (snd sl)) s MAX_MATCH_DIST \<noteq> None"
    using k(3) unfolding segs by (simp add: fm_segments_def)
  then have t: "try_sl s MAX_MATCH_DIST sl \<noteq> None" by (simp add: try_sl_def)
  have "first_some (try_sl s MAX_MATCH_DIST) SL_SEQS \<noteq> None"
  proof
    assume "first_some (try_sl s MAX_MATCH_DIST) SL_SEQS = None"
    then have "\<forall>x \<in> set SL_SEQS. try_sl s MAX_MATCH_DIST x = None"
      by (simp only: first_some_None)
    then have "try_sl s MAX_MATCH_DIST sl = None" using assms(1) by (rule bspec)
    then show False using t by simp
  qed
  moreover have "MAX_MATCH_DIST \<in> set [0..<Suc MAX_MATCH_DIST]"
    unfolding set_upt by simp
  ultimately show ?thesis unfolding bc_match_def first_some_None by blast
qed

lemma process_compiled:
  "process_bc_seq_line compile_bc_regex s n =
     (case bc_match s of None \<Rightarrow> Inr None | Some m \<Rightarrow> Inr (Some (decoded (fst m) (snd m) n)))"
proof (cases "bc_match s")
  case None
  then show ?thesis by (simp add: process_bc_seq_line_def compile_bc_regex_def)
next
  case (Some m)
  obtain sl caps where m: "m = (sl, caps)" by (cases m)
  have 1: "sl \<in> set SL_SEQS" "length caps = 8"
    using bc_match_sound[of s sl caps] Some m by simp_all
  have "match_groupdict compile_bc_regex s = Some (groupdict_of (sl, caps))"
    using Some m by (simp add: compile_bc_regex_def)
  from process_groupdict[OF 1 this] show ?thesis using Some m by simp
qed

lemma decoded_complete: "complete_record (decoded sl caps n)"
  by (simp add: complete_record_def decoded_def key_cols_def dict_get_def)

lemma decoded_count: "count_of (decoded sl caps n) = n"
  by (simp add: count_of_def decoded_def dict_get_def count_int_def)

lemma null_record_eq:
  "null_record n =
     [(''itam_bc_o'', PyNone), (''itam_umi_o'', PyNone), (''costim_bc_o'', PyNone),
      (''sublibrary_90'', PyNone), (''sublibrary_30'', PyNone), (''sublibrary_31'', PyNone),
      (''sublibrary_34'', PyNone), (''sublibrary_60'', PyNone), (''sublibrary_63'', PyNone),
      (''costim_umi_o'', PyNone), (''count'', PyInt n)]"
  by (simp add: null_record_def compile_bc_regex_def group_names_def SL_SEQS_def)

lemma null_record_incomplete: "\<not> complete_record (null_record n)"
  by (simp add: complete_record_def null_record_eq key_cols_def dict_get_def)

lemma null_record_count: "count_of (null_record n) = n"
  by (simp add: count_of_def null_record_eq dict_get_def count_int_def)

lemma null_record_keys: "\<forall>c \<in> set key_cols. dict_get (null_record n) c = PyNone"
  by (simp add: null_record_eq key_cols_def dict_get_def)

lemma stat_bump: "stat (bump k v st) k' = (if k' = k then stat st k + v else stat st k')"
  by (induction st) (auto simp: stat_def)

lemma add_count_key_total:
  "key_total k' (add_count k c gs) = key_total k' gs + (if k' = k then c else 0)"
  by (induction gs) (auto simp: key_total_def)

lemma foldl_add_count_key_total:
  "key_total k (foldl (\<lambda>acc r. add_count (fst r) (snd r) acc) acc rs) =
     key_total k acc + key_total k rs"
proof (induction rs arbitrary: acc)
  case Nil
  then show ?case by (simp add: key_total_def)
next
  case (Cons r rs)
  show ?case
    unfolding foldl_Cons Cons.IH add_count_key_total
    by (simp add: key_total_def)
qed

lemma key_total_distinct:
  "distinct (map fst gs) \<Longrightarrow> g \<in> set gs \<Longrightarrow> key_total (fst g) gs = snd g"
proof (induction gs)
  case Nil
  then show ?case by simp
next
  case (Cons a gs)
  show ?case
  proof (cases "g = a")
    case True
    have "filter (\<lambda>r. fst r = fst a) gs = []"
      using Cons.prems(1) by (auto simp: filter_empty_conv image_iff)
    then show ?thesis using True by (simp add: key_total_def)
  next
    case False
    then have g: "g \<in> set gs" using Cons.prems(2) by simp
    have "fst a \<noteq> fst g" using Cons.prems(1) g by (auto simp: image_iff)
    then show ?thesis using Cons.IH[OF _ g] Cons.prems(1) by (simp add: key_total_def)
  qed
qed

lemma group_sum_key_total:
  "g \<in> set (group_sum rs) \<Longrightarrow> snd g = key_total (fst g) rs"
proof -
  assume g: "g \<in> set (group_sum rs)"
  have "key_total (fst g) (group_sum rs) = key_total (fst g) rs"
    unfolding group_sum_def foldl_add_count_key_total by (simp add: key_total_def)
  then show ?thesis using key_total_distinct[OF group_sum_distinct g] by simp
qed


lemma make_table_rows:
  assumes "make_table False ds = Inr df" "row \<in> set (frame_rows df)"
  shows "\<exists>d \<in> set ds. complete_record d \<and>
           row = PyInt (sum_list (map count_of
                   (filter (\<lambda>e. complete_record e \<and> record_key e = record_key d) ds))) # record_key d"
proof -
  define keyed where "keyed = map (\<lambda>d. (map (dict_get d) key_cols, count_of d))
                               (filter complete_record ds)"
  have rows: "frame_rows df = map (\<lambda>g. PyInt (snd g) # fst g) (sort_desc snd (group_sum keyed))"
    using make_table_grouped[OF assms(1)] by (simp_all add: keyed_def)
  from assms(2) obtain g where g: "g \<in> set (group_sum keyed)" and row: "row = PyInt (snd g) # fst g"
    unfolding rows by (auto simp: sort_desc_set)
  have "fst g \<in> fst ` set keyed" using g group_sum_keys[of keyed] by blast
  then obtain d where d: "d \<in> set ds" "complete_record d" "fst g = record_key d"
    by (auto simp: keyed_def record_key_def)
  have "snd g = key_total (record_key d) keyed"
    using group_sum_key_total[OF g] d(3) by simp
  also have "\<dots> = sum_list (map count_of
       (filter (\<lambda>e. complete_record e \<and> record_key e = record_key d) ds))"
    unfolding key_total_def keyed_def filter_map comp_def map_map record_key_def
    by (simp add: conj_commute)
  finally show ?thesis using d row by auto
qed

lemma make_table_keys_distinct:
  assumes "make_table False ds = Inr df"
  shows "frame_cols df = ''count'' # key_cols \<and> distinct (map tl (frame_rows df))"
proof -
  define keyed where "keyed = map (\<lambda>d. (map (dict_get d) key_cols, count_of d))
                               (filter complete_record ds)"
  have cols: "frame_cols df = ''count'' # key_cols"
    and rows: "frame_rows df = map (\<lambda>g. PyInt (snd g) # fst g) (sort_desc snd (group_sum keyed))"
    using make_table_grouped[OF assms(1)] by (simp_all add: keyed_def)
  have "mset (map fst (sort_desc snd (group_sum keyed))) = mset (map fst (group_sum keyed))"
    by (metis mset_map sort_desc_mset)
  then have "distinct (map fst (sort_desc snd (group_sum keyed)))"
    using group_sum_distinct[of keyed] by (metis mset_eq_imp_distinct_iff)
  then show ?thesis using cols by (simp add: rows comp_def)
qed

lemma count_line_cases:
  assumes "count_line False compile_bc_regex st n s = (st', None)"
  shows "(n < MIN_COUNT \<and>
          st' = st \<lparr> stats_of := bump ''skipped_counts'' n (bump ''skipped_lines'' 1
                     (bump ''total_counts'' n (bump ''total_lines'' 1 (stats_of st)))) \<rparr>) \<or>
         (\<not> n < MIN_COUNT \<and> bc_match s = None \<and>
          st' = st \<lparr> stats_of := bump ''unmatched_counts'' n (bump ''unmatched_lines'' 1
                     (bump ''total_counts'' n (bump ''total_lines'' 1 (stats_of st)))),
                    bc_table_list := bc_table_list st @ [null_record n] \<rparr>) \<or>
         (\<not> n < MIN_COUNT \<and> (\<exists>sl caps. bc_match s = Some (sl, caps) \<and>
          st' = st \<lparr> stats_of := bump ''matched_counts'' n (bump ''matched_lines'' 1
                     (bump ''total_counts'' n (bump ''total_lines'' 1 (stats_of st)))),
                    bc_table_list := bc_table_list st @ [decoded sl caps n] \<rparr>))"
proof (cases "n < MIN_COUNT")
  case True
  then show ?thesis using assms by (simp add: count_line_def Let_def)
next
  case False
  show ?thesis
  proof (cases "bc_match s")
    case None
    then show ?thesis
      using assms False
      by (simp add: count_line_def Let_def process_compiled null_record_def)
  next
    case (Some m)
    obtain sl caps where m: "m = (sl, caps)" by (cases m)
    show ?thesis
      using assms False Some m
      by (simp add: count_line_def Let_def process_compiled)
  qed
qed

lemma tallied_skip:
  assumes "tallied st"
  shows "tallied (st \<lparr> stats_of := bump ''skipped_counts'' n (bump ''skipped_lines'' 1
                     (bump ''total_counts'' n (bump ''total_lines'' 1 (stats_of st)))) \<rparr>)"
  using assms by (simp add: tallied_def stat_bump)

lemma tallied_unmatched:
  assumes "tallied st"
  shows "tallied (st \<lparr> stats_of := bump ''unmatched_counts'' n (bump ''unmatched_lines'' 1
                     (bump ''total_counts'' n (bump ''total_lines'' 1 (stats_of st)))),
                    bc_table_list := bc_table_list st @ [null_record n] \<rparr>)"
proof -
  have "\<exists>m. null_record n = null_record m" by blast
  then show ?thesis
    using assms unfolding tallied_def
    by (simp add: stat_bump null_record_incomplete null_record_count ball_Un)
qed

lemma tallied_matched:
  assumes "tallied st" "sl \<in> set SL_SEQS"
  shows "tallied (st \<lparr> stats_of := bump ''matched_counts'' n (bump ''matched_lines'' 1
                     (bump ''total_counts'' n (bump ''total_lines'' 1 (stats_of st)))),
                    bc_table_list := bc_table_list st @ [decoded sl caps n] \<rparr>)"
proof -
  have "\<exists>sl' caps' m. sl' \<in> set SL_SEQS \<and> decoded sl caps n = decoded sl' caps' m"
    using assms(2) by blast
  then show ?thesis
    using assms(1) unfolding tallied_def
    by (simp add: stat_bump decoded_complete decoded_count ball_Un)
qed

lemma count_line_tallied:
  assumes "count_line False compile_bc_regex st n s = (st', None)" "tallied st"
  shows "tallied st' \<and>
         stat (stats_of st') ''total_counts'' = stat (stats_of st) ''total_counts'' + n"
proof -
  consider
    (skip) "st' = st \<lparr> stats_of := bump ''skipped_counts'' n (bump ''skipped_lines'' 1
                     (bump ''total_counts'' n (bump ''total_lines'' 1 (stats_of st)))) \<rparr>"
  | (unmatched) "st' = st \<lparr> stats_of := bump ''unmatched_counts'' n (bump ''unmatched_lines'' 1
                     (bump ''total_counts'' n (bump ''total_lines'' 1 (stats_of st)))),
                    bc_table_list := bc_table_list st @ [null_record n] \<rparr>"
  | (matched) sl caps where "bc_match s = Some (sl, caps)"
      "st' = st \<lparr> stats_of := bump ''matched_counts'' n (bump ''matched_lines'' 1
                     (bump ''total_counts'' n (bump ''total_lines'' 1 (stats_of st)))),
                    bc_table_list := bc_table_list st @ [decoded sl caps n] \<rparr>"
    using count_line_cases[OF assms(1)] by blast
  then show ?thesis
  proof cases
    case skip
    show ?thesis unfolding skip using tallied_skip[OF assms(2)] by (simp add: stat_bump)
  next
    case unmatched
    show ?thesis unfolding unmatched using tallied_unmatched[OF assms(2)] by (simp add: stat_bump)
  next
    case matched
    have "sl \<in> set SL_SEQS" using bc_match_sound[OF matched(1)] by simp
    then show ?thesis
      unfolding matched(2) using tallied_matched[OF assms(2)] by (simp add: stat_bump)
  qed
qed

lemma tallied_flags:
  "tallied (st \<lparr> no_counts := a \<rparr>) = tallied st"
  "tallied (st \<lparr> no_counts := a, stderr := b \<rparr>) = tallied st"
  by (simp_all add: tallied_def)

lemma step_tallied:
  assumes "step False compile_bc_regex st line = (st', None)" "tallied st"
  shows "tallied st' \<and>
         stat (stats_of st') ''total_counts'' = stat (stats_of st) ''total_counts'' + line_weight line"
proof (cases "length (py_split line) = 1")
  case True
  then obtain s where s: "py_split line = [s]" by (cases "py_split line") auto
  have c: "count_line False compile_bc_regex
             (st \<lparr> no_counts := Some True,
                   stderr := (if no_counts st \<noteq> Some True then stderr st @ [warning] else stderr st) \<rparr>)
             1 s = (st', None)"
    using assms(1) by (simp add: step_def s)
  have "tallied (st \<lparr> no_counts := Some True,
                   stderr := (if no_counts st \<noteq> Some True then stderr st @ [warning] else stderr st) \<rparr>)"
    using assms(2) by (simp only: tallied_flags)
  from count_line_tallied[OF c this] show ?thesis by (simp add: line_weight_def s)
next
  case False
  then obtain w rest where p: "py_split line = w # rest" "rest \<noteq> []"
    using assms(1) by (cases "py_split line") (auto simp: step_def)
  obtain n where n: "py_int w = Some n"
    using assms(1) False p by (cases "py_int w") (auto simp: step_def)
  have c: "count_line False compile_bc_regex (st \<lparr> no_counts := Some False \<rparr>) n
             ((w # rest) ! 1) = (st', None)"
    using assms(1) False p n by (simp add: step_def)
  have "tallied (st \<lparr> no_counts := Some False \<rparr>)" using assms(2) by (simp only: tallied_flags)
  from count_line_tallied[OF c this] show ?thesis
    using p n by (cases rest) (simp_all add: line_weight_def)
qed

lemma run_lines_tallied:
  "run_lines False compile_bc_regex st lines = (st', None) \<Longrightarrow> tallied st \<Longrightarrow>
   tallied st' \<and>
   stat (stats_of st') ''total_counts'' =
     stat (stats_of st) ''total_counts'' + sum_list (map line_weight lines)"
proof (induction lines arbitrary: st)
  case Nil
  then show ?case by simp
next
  case (Cons line ls)
  obtain st1 e where s: "step False compile_bc_regex st line = (st1, e)"
    by (cases "step False compile_bc_regex st line")
  have e: "e = None" using Cons.prems(1) s by (cases e) simp_all
  have r: "run_lines False compile_bc_regex st1 ls = (st', None)"
    using Cons.prems(1) s e by simp
  have t1: "tallied st1"
    "stat (stats_of st1) ''total_counts'' = stat (stats_of st) ''total_counts'' + line_weight line"
    using step_tallied[OF s[unfolded e] Cons.prems(2)] by simp_all
  from Cons.IH[OF r t1(1)] show ?case using t1(2) by simp
qed

lemma tallied_initial:
  "tallied \<lparr> bc_table_list = [], stats_of = [], no_counts = None, stderr = [] \<rparr>"
  by (simp add: tallied_def stat_def)

lemma decoder_main_table:
  assumes "run_stdout (decoder_main lines) = Some df"
  shows "\<exists>st. run_lines False compile_bc_regex
                \<lparr> bc_table_list = [], stats_of = [], no_counts = None, stderr = [] \<rparr> lines = (st, None) \<and>
              bc_table_list st = decoder_records lines \<and>
              make_table False (decoder_records lines) = Inr df \<and>
              run_stats (decoder_main lines) =
                bump ''merged_lines'' (int (length (frame_rows df))) (stats_of st)"
proof -
  let ?init = "\<lparr> bc_table_list = [], stats_of = [], no_counts = None, stderr = [] \<rparr>"
  obtain st e where r: "run_lines False compile_bc_regex ?init lines = (st, e)"
    by (cases "run_lines False compile_bc_regex ?init lines")
  have e: "e = None"
    using assms r by (cases e) (simp_all add: decoder_main_def decoder_main_with_def)
  have recs: "bc_table_list st = decoder_records lines" by (simp add: decoder_records_def r)
  have m: "make_table False (bc_table_list st) = Inr df \<and>
           run_stats (decoder_main lines) =
             bump ''merged_lines'' (int (length (frame_rows df))) (stats_of st)"
    using assms r e
    by (cases "make_table False (bc_table_list st)")
       (auto simp: decoder_main_def decoder_main_with_def Let_def split: prod.splits)
  show ?thesis using r e recs m by auto
qed

lemma stat_merged_lines:
  "k \<noteq> ''merged_lines'' \<Longrightarrow> stat (bump ''merged_lines'' v st) k = stat st k"
  by (simp add: stat_bump)

lemma decoder_main_tallied:
  assumes "run_stdout (decoder_main lines) = Some df"
  shows "make_table False (decoder_records lines) = Inr df \<and>
         (\<forall>d \<in> set (decoder_records lines).
            (\<exists>sl caps n. sl \<in> set SL_SEQS \<and> d = decoded sl caps n) \<or> (\<exists>n. d = null_record n)) \<and>
         stat (run_stats (decoder_main lines)) ''matched_counts'' =
           sum_list (map count_of (filter complete_record (decoder_records lines))) \<and>
         stat (run_stats (decoder_main lines)) ''unmatched_counts'' =
           sum_list (map count_of (filter (\<lambda>d. \<not> complete_record d) (decoder_records lines))) \<and>
         stat (run_stats (decoder_main lines)) ''total_counts'' =
           stat (run_stats (decoder_main lines)) ''skipped_counts'' +
           stat (run_stats (decoder_main lines)) ''matched_counts'' +
           stat (run_stats (decoder_main lines)) ''unmatched_counts'' \<and>
         stat (run_stats (decoder_main lines)) ''total_counts'' = sum_list (map line_weight lines)"
proof -
  let ?init = "\<lparr> bc_table_list = [], stats_of = [], no_counts = None, stderr = [] \<rparr>"
  obtain st where st: "run_lines False compile_bc_regex ?init lines = (st, None)"
    "bc_table_list st = decoder_records lines"
    "make_table False (decoder_records lines) = Inr df"
    "run_stats (decoder_main lines) =
       bump ''merged_lines'' (int (length (frame_rows df))) (stats_of st)"
    using decoder_main_table[OF assms] by blast
  have t: "tallied st"
    and w: "stat (stats_of st) ''total_counts'' =
            stat (stats_of ?init) ''total_counts'' + sum_list (map line_weight lines)"
    using run_lines_tallied[OF st(1) tallied_initial] by simp_all
  have s: "stat (run_stats (decoder_main lines)) ''matched_counts'' = stat (stats_of st) ''matched_counts''"
    "stat (run_stats (decoder_main lines)) ''unmatched_counts'' = stat (stats_of st) ''unmatched_counts''"
    "stat (run_stats (decoder_main lines)) ''skipped_counts'' = stat (stats_of st) ''skipped_counts''"
    "stat (run_stats (decoder_main lines)) ''total_counts'' = stat (stats_of st) ''total_counts''"
    unfolding st(4) by (simp_all add: stat_merged_lines)
  have w': "stat (stats_of st) ''total_counts'' = sum_list (map line_weight lines)"
    using w by (simp add: stat_def)
  show ?thesis
    using t st(3) w' unfolding s tallied_def st(2) by simp
qed

lemma all_matches_Nil_bound:
  "t \<in> set (all_matches [] segs s b) \<Longrightarrow> length (concat segs) \<le> length s + b"
proof (induction "length segs + length s" arbitrary: segs s b t rule: less_induct)
  case less
  from less.prems have
    "(\<exists>seg rest. segs = seg # rest \<and> t \<in> set (map (\<lambda>caps. [] # caps) (all_matches seg rest s b))) \<or>
     segs = [] \<or>
     (\<exists>c cs. s = c # cs \<and> b \<noteq> 0 \<and> t \<in> set (map (push c) (all_matches [] segs cs (b - 1))))"
    by (subst (asm) all_matches.simps) (auto split: list.splits if_splits)
  then consider
    (move) seg rest where "segs = seg # rest"
      "t \<in> set (map (\<lambda>caps. [] # caps) (all_matches seg rest s b))"
  | (stop) "segs = []"
  | (ins) c cs where "s = c # cs" "b \<noteq> 0" "t \<in> set (map (push c) (all_matches [] segs cs (b - 1)))"
    by blast
  then show ?case
  proof cases
    case move
    then obtain t' where t': "t' \<in> set (all_matches seg rest s b)" by auto
    show ?thesis
    proof (cases seg)
      case Nil
      have "length (concat rest) \<le> length s + b"
        using less.hyps[of rest s t' b] t' move(1) Nil by simp
      then show ?thesis using move(1) Nil by simp
    next
      case (Cons a as)
      have "\<not> length s + b < length (a # as) + length (concat rest)"
        using t' unfolding Cons by (subst (asm) all_matches.simps) (auto split: if_splits)
      then show ?thesis using move(1) Cons by simp
    qed
  next
    case stop
    then show ?thesis by simp
  next
    case ins
    then obtain t' where t': "t' \<in> set (all_matches [] segs cs (b - 1))" by auto
    have "length (concat segs) \<le> length cs + (b - 1)"
      using less.hyps[of segs cs t' "b - 1"] t' ins(1) by simp
    then show ?thesis using ins(1,2) by simp
  qed
qed

lemma all_matches_Nil_move:
  "xs \<in> set (all_matches seg rest s b) \<Longrightarrow> ([] # xs) \<in> set (all_matches [] (seg # rest) s b)"
  by (subst all_matches.simps) simp

lemma all_matches_Nil_done: "[[]] \<in> set (all_matches [] [] s b)"
  by (subst all_matches.simps) simp

lemma all_matches_Nil_insert:
  "b \<noteq> 0 \<Longrightarrow> t \<in> set (all_matches [] segs cs (b - 1)) \<Longrightarrow>
   push c t \<in> set (all_matches [] segs (c # cs) b)"
  by (subst all_matches.simps) simp

lemma all_matches_Cons_unfold:
  assumes "length (a # as) + length (concat segs) \<le> length (c # cs) + b"
  shows "all_matches (a # as) segs (c # cs) b =
          (if accepts a c then map (push c) (all_matches as segs cs b) else []) @
          (if b = 0 then []
           else map (push c) (all_matches as segs cs (b - 1)) @
                map (push c) (all_matches (a # as) segs cs (b - 1)) @
                all_matches as segs (c # cs) (b - 1))"
proof -
  have "\<not> length (c # cs) + b < length (a # as) + length (concat segs)"
    using assms by simp
  then show ?thesis by (subst all_matches.simps) (simp only: if_False list.case)
qed

lemma all_matches_Cons_step:
  assumes "length (a # as) + length (concat segs) \<le> length (c # cs) + b"
  shows "accepts a c \<Longrightarrow> t \<in> set (all_matches as segs cs b) \<Longrightarrow>
           push c t \<in> set (all_matches (a # as) segs (c # cs) b)"
    and "b \<noteq> 0 \<Longrightarrow> t \<in> set (all_matches as segs cs (b - 1)) \<Longrightarrow>
           push c t \<in> set (all_matches (a # as) segs (c # cs) b)"
    and "b \<noteq> 0 \<Longrightarrow> t \<in> set (all_matches (a # as) segs cs (b - 1)) \<Longrightarrow>
           push c t \<in> set (all_matches (a # as) segs (c # cs) b)"
    and "b \<noteq> 0 \<Longrightarrow> t \<in> set (all_matches as segs (c # cs) (b - 1)) \<Longrightarrow>
           t \<in> set (all_matches (a # as) segs (c # cs) b)"
  unfolding all_matches_Cons_unfold[OF assms] by simp_all

lemma all_matches_Cons_delete_end:
  assumes "length (a # as) + length (concat segs) \<le> b"
  shows "t \<in> set (all_matches as segs [] (b - 1)) \<Longrightarrow> t \<in> set (all_matches (a # as) segs [] b)"
proof -
  assume t: "t \<in> set (all_matches as segs [] (b - 1))"
  have "\<not> length ([] :: string) + b < length (a # as) + length (concat segs)" "b \<noteq> 0"
    using assms by simp_all
  then have "all_matches (a # as) segs [] b = all_matches as segs [] (b - 1)"
    by (subst all_matches.simps) (simp only: if_False list.case)
  then show ?thesis using t by simp
qed

lemma all_matches_segment:
  "aligned as x m \<Longrightarrow> m \<le> b \<Longrightarrow> ([] # xs) \<in> set (all_matches [] segs s (b - m)) \<Longrightarrow>
   (x # xs) \<in> set (all_matches as segs (x @ s) b)"
proof (induction arbitrary: b rule: aligned.induct)
  case al_end
  then show ?case by simp
next
  case (al_exact a c as x k)
  have tail: "length (concat segs) \<le> length s + (b - k)"
    using al_exact.prems(2) by (rule all_matches_Nil_bound)
  have len: "length as \<le> length x + k" using aligned_length[OF al_exact.hyps(2)] by simp
  have bound: "length (a # as) + length (concat segs) \<le> length (c # (x @ s)) + b"
    using tail len al_exact.prems(1) by simp
  have "(x # xs) \<in> set (all_matches as segs (x @ s) b)"
    using al_exact.IH[OF al_exact.prems] .
  from all_matches_Cons_step(1)[OF bound al_exact.hyps(1) this]
  show ?case by (simp add: push_def)
next
  case (al_subst as x k a c)
  have b: "b \<noteq> 0" "k \<le> b - 1" using al_subst.prems(1) by simp_all
  have tail: "length (concat segs) \<le> length s + (b - Suc k)"
    using al_subst.prems(2) by (rule all_matches_Nil_bound)
  have len: "length as \<le> length x + k" using aligned_length[OF al_subst.hyps] by simp
  have bound: "length (a # as) + length (concat segs) \<le> length (c # (x @ s)) + b"
    using tail len al_subst.prems(1) by simp
  have "([] # xs) \<in> set (all_matches [] segs s ((b - 1) - k))"
    using al_subst.prems(2) by simp
  then have "(x # xs) \<in> set (all_matches as segs (x @ s) (b - 1))"
    using al_subst.IH[OF b(2)] by simp
  from all_matches_Cons_step(2)[OF bound b(1) this]
  show ?case by (simp add: push_def)
next
  case (al_delete as x k a)
  have b: "b \<noteq> 0" "k \<le> b - 1" using al_delete.prems(1) by simp_all
  have tail: "length (concat segs) \<le> length s + (b - Suc k)"
    using al_delete.prems(2) by (rule all_matches_Nil_bound)
  have len: "length as \<le> length x + k" using aligned_length[OF al_delete.hyps] by simp
  have "([] # xs) \<in> set (all_matches [] segs s ((b - 1) - k))"
    using al_delete.prems(2) by simp
  then have ih: "(x # xs) \<in> set (all_matches as segs (x @ s) (b - 1))"
    using al_delete.IH[OF b(2)] by simp
  show ?case
  proof (cases "x @ s")
    case Nil
    have "length (a # as) + length (concat segs) \<le> b"
      using tail len al_delete.prems(1) Nil by simp
    from all_matches_Cons_delete_end[OF this] ih show ?thesis by (simp add: Nil)
  next
    case (Cons c cs)
    have bound: "length (a # as) + length (concat segs) \<le> length (c # cs) + b"
      using tail len al_delete.prems(1) arg_cong[OF Cons, of length] by simp
    from all_matches_Cons_step(4)[OF bound b(1)] ih show ?thesis by (simp add: Cons)
  qed
next
  case (al_insert as x k c)
  have b: "b \<noteq> 0" "k \<le> b - 1" using al_insert.prems(1) by simp_all
  have tail: "length (concat segs) \<le> length s + (b - Suc k)"
    using al_insert.prems(2) by (rule all_matches_Nil_bound)
  have len: "length as \<le> length x + k" using aligned_length[OF al_insert.hyps] by simp
  have "([] # xs) \<in> set (all_matches [] segs s ((b - 1) - k))"
    using al_insert.prems(2) by simp
  then have ih: "(x # xs) \<in> set (all_matches as segs (x @ s) (b - 1))"
    using al_insert.IH[OF b(2)] by simp
  show ?case
  proof (cases as)
    case Nil
    have "push c (x # xs) \<in> set (all_matches [] segs (c # (x @ s)) b)"
      using ih unfolding Nil by (rule all_matches_Nil_insert[OF b(1)])
    then show ?thesis by (simp add: Nil push_def)
  next
    case (Cons a as')
    have bound: "length (a # as') + length (concat segs) \<le> length (c # (x @ s)) + b"
      using tail len al_insert.prems(1) Cons by simp
    have "push c (x # xs) \<in> set (all_matches (a # as') segs (c # (x @ s)) b)"
      using ih unfolding Cons by (rule all_matches_Cons_step(3)[OF bound b(1)])
    then show ?thesis by (simp add: Cons push_def)
  qed
qed

inductive_cases seg_aligned_ConsE: "seg_aligned (as # segs) caps k"

inductive_cases seg_aligned_NilE: "seg_aligned [] caps k"

lemma all_matches_complete:
  "seg_aligned (as # segs) caps k \<Longrightarrow> k \<le> b \<Longrightarrow>
   caps \<in> set (all_matches as segs (concat caps @ rest) b)"
proof (induction segs arbitrary: as caps k b)
  case Nil
  from Nil.prems(1) obtain x xs m n where 0: "caps = x # xs" "aligned as x m"
    "seg_aligned [] xs n" "k = m + n"
    by (rule seg_aligned_ConsE)
  from 0(3) have "xs = []" "n = 0" by (rule seg_aligned_NilE, simp)+
  then have x: "caps = [x]" "aligned as x m" "k = m" using 0 by simp_all
  have "[[]] \<in> set (all_matches [] [] rest (b - m))" by (rule all_matches_Nil_done)
  from all_matches_segment[OF x(2) _ this] Nil.prems(2) x(3) show ?case by (simp add: x(1))
next
  case (Cons seg segs)
  from Cons.prems(1) obtain x xs m n where x: "caps = x # xs" "aligned as x m"
    "seg_aligned (seg # segs) xs n" "k = m + n"
    by (rule seg_aligned_ConsE)
  have "n \<le> b - m" using Cons.prems(2) x(4) by simp
  from Cons.IH[OF x(3) this] have "xs \<in> set (all_matches seg segs (concat xs @ rest) (b - m))" .
  then have "([] # xs) \<in> set (all_matches [] (seg # segs) (concat xs @ rest) (b - m))"
    by (rule all_matches_Nil_move)
  from all_matches_segment[OF x(2) _ this] Cons.prems(2) x(4) show ?case by (simp add: x(1))
qed

lemma fuzzy_match_listed:
  assumes "fuzzy_match sl s caps"
  shows "caps \<in> set (all_fuzzy_matches (snd sl) s)"
proof -
  from assms obtain k rest where k: "k \<le> MAX_MATCH_DIST"
    "seg_aligned (segments (snd sl)) caps k" "s = concat caps @ rest"
    unfolding fuzzy_match_def by blast
  define R where "R = [shape itam_bc, shape itam_umi, shape jct_str, costim_bc,
      shape (snd sl), costim_umi, shape post_str]"
  have segs: "segments (snd sl) = shape pre_str # R"
    by (simp add: segments_def R_def)
  have "caps \<in> set (all_matches (shape pre_str) R (concat caps @ rest) MAX_MATCH_DIST)"
    using k(2) k(1) unfolding segs by (rule all_matches_complete)
  then show ?thesis unfolding all_fuzzy_matches_def segs k(3) by simp
qed

lemma seg_aligned_deviation:
  "seg_aligned segs caps k \<Longrightarrow>
   sum_list (map (\<lambda>p. \<bar>int (length (snd p)) - int (length (fst p))\<bar>) (zip segs caps)) \<le> int k"
proof (induction rule: seg_aligned.induct)
  case seg_end
  then show ?case by simp
next
  case (seg_step as x m segs xs n)
  have "\<bar>int (length x) - int (length as)\<bar> \<le> int m"
    using aligned_length[OF seg_step.hyps(1)] by linarith
  then show ?case using seg_step.IH by simp
qed

lemma field_deviation:
  assumes "seg_aligned (segments l) caps k"
  shows "\<bar>int (length (caps ! 1)) - 9\<bar> + \<bar>int (length (caps ! 2)) - 15\<bar> +
         \<bar>int (length (caps ! 4)) - 9\<bar> + \<bar>int (length (caps ! 6)) - 15\<bar> \<le> int k"
proof -
  have "length caps = 8" using seg_aligned_length[OF assms] by (simp add: segments_def)
  then obtain c0 c1 c2 c3 c4 c5 c6 c7 where caps: "caps = [c0, c1, c2, c3, c4, c5, c6, c7]"
    by (rule length8)
  have "sum_list (map (\<lambda>p. \<bar>int (length (snd p)) - int (length (fst p))\<bar>)
          (zip (segments l) caps)) \<le> int k"
    using assms by (rule seg_aligned_deviation)
  then have "\<bar>int (length c0) - int (length (shape pre_str))\<bar> +
        (\<bar>int (length c1) - int (length (shape itam_bc))\<bar> +
        (\<bar>int (length c2) - int (length (shape itam_umi))\<bar> +
        (\<bar>int (length c3) - int (length (shape jct_str))\<bar> +
        (\<bar>int (length c4) - int (length costim_bc)\<bar> +
        (\<bar>int (length c5) - int (length (shape l))\<bar> +
        (\<bar>int (length c6) - int (length costim_umi)\<bar> +
         \<bar>int (length c7) - int (length (shape post_str))\<bar>)))))) \<le> int k"
    unfolding caps segments_def by simp
  moreover have "length (shape itam_bc) = 9" "length (shape itam_umi) = 15"
    "length costim_bc = 9" "length costim_umi = 15"
    by (simp_all add: shape_def itam_bc_def itam_umi_def costim_bc_def costim_umi_def)
  ultimately have "\<bar>int (length c0) - int (length (shape pre_str))\<bar> +
        (\<bar>int (length c1) - 9\<bar> +
        (\<bar>int (length c2) - 15\<bar> +
        (\<bar>int (length c3) - int (length (shape jct_str))\<bar> +
        (\<bar>int (length c4) - 9\<bar> +
        (\<bar>int (length c5) - int (length (shape l))\<bar> +
        (\<bar>int (length c6) - 15\<bar> +
         \<bar>int (length c7) - int (length (shape post_str))\<bar>)))))) \<le> int k"
    by simp
  then have "\<bar>int (length c1) - 9\<bar> + \<bar>int (length c2) - 15\<bar> +
         \<bar>int (length c4) - 9\<bar> + \<bar>int (length c6) - 15\<bar> \<le> int k"
    by linarith
  then show ?thesis unfolding caps by simp
qed

lemma one_sublibrary:
  assumes "sl \<in> set SL_SEQS" "length caps = 8"
  shows "filter (\<lambda>g. starts_with ''sublibrary_'' (fst g) \<and> snd g \<noteq> None) (groupdict_of (sl, caps)) =
           [(''sublibrary_'' @ fst sl, Some (caps ! 5))]"
proof -
  obtain c0 c1 c2 c3 c4 c5 c6 c7 where caps: "caps = [c0, c1, c2, c3, c4, c5, c6, c7]"
    using assms(2) by (rule length8)
  obtain i l where sl: "sl = (i, l)" by (cases sl)
  have i: "i = ''90'' \<or> i = ''30'' \<or> i = ''31'' \<or> i = ''34'' \<or> i = ''60'' \<or> i = ''63''"
    using assms(1) by (auto simp: SL_SEQS_def sl)
  show ?thesis
    using i unfolding sl caps
    by (elim disjE) (simp_all add: groupdict_of_cases starts_with_def)
qed

lemma sl_number_ids:
  assumes "sl \<in> set SL_SEQS"
  shows "sl_number sl \<in> set [90, 30, 31, 34, 60, 63]"
proof -
  obtain i l where sl: "sl = (i, l)" by (cases sl)
  have i: "i = ''90'' \<or> i = ''30'' \<or> i = ''31'' \<or> i = ''34'' \<or> i = ''60'' \<or> i = ''63''"
    using assms(1) by (auto simp: SL_SEQS_def sl)
  show ?thesis using i unfolding sl by (elim disjE) (simp_all add: sl_number_def py_int_ids)
qed

section \<open>The merge engine: properties\<close>

text \<open>
  C2, as amended. Work and termination of the merge engine. For every non-empty list of
  \<open>N\<close> tables \<open>reduce_dataframes\<close> returns. When the count labels of the tables are
  pairwise distinct it returns a table, and it can only fail to do so with the error of a
  merge whose suffixed labels clash. The table it returns is the outcome of exactly
  \<open>N - 1\<close> calls of \<open>merge_dataframes\<close>, arranged as a pairing sequence over the
  tables in the order given, whether or not a round had a leftover to carry forward; the
  rounds have handed \<open>N - 1\<close> pairs to \<open>merge_dataframes\<close> in all; and the number of
  tables left after a round falls strictly from round to round, is below \<open>N\<close> from the
  first round on when \<open>N > 1\<close>, and is 1 after the last round.
\<close>

theorem reduce_dataframes_work:
  assumes "dfs \<noteq> []"
  shows "\<exists>r. reduce_dataframes dfs = Some r \<and>
           (case r of
              Inl e \<Rightarrow> e = MergeError \<and> \<not> distinct (concat (map count_cols dfs))
            | Inr red \<Rightarrow>
                (\<exists>p. tables p = dfs \<and> merges p = length dfs - 1 \<and>
                     run_pairing p = Inr (merged red)) \<and>
                sum_list (map fst (trace red)) = length dfs - 1 \<and>
                sorted_wrt (>) (map snd (trace red)) \<and>
                (1 < length dfs \<longrightarrow> (\<forall>s \<in> set (map snd (trace red)). s < length dfs)) \<and>
                trace red \<noteq> [] \<and> last (map snd (trace red)) = 1)"
proof -
  obtain r where r: "reduce_dataframes dfs = Some r"
    and c: "case r of
              Inl e \<Rightarrow> e = MergeError
            | Inr red \<Rightarrow>
                (\<exists>p. tables p = dfs \<and> run_pairing p = Inr (merged red)) \<and>
                good_trace (length dfs) (trace red)"
    using reduce_dataframes_pairing[OF assms] by blast
  show ?thesis
  proof (cases r)
    case (Inl e)
    have "\<not> distinct (concat (map count_cols dfs))"
    proof
      assume "distinct (concat (map count_cols dfs))"
      then have "\<exists>red. r = Inr red"
        using reduce_dataframes_trace[OF assms] r by auto
      then show False using Inl by simp
    qed
    then show ?thesis using r c Inl by simp
  next
    case (Inr red)
    obtain p where p: "tables p = dfs" "run_pairing p = Inr (merged red)"
      and g: "good_trace (length dfs) (trace red)"
      using c Inr by auto
    have "merges p = length dfs - 1" using merges_tables[of p] p(1) by simp
    then show ?thesis using r Inr p g unfolding good_trace_def by auto
  qed
qed

theorem reduce_dataframes_work_witness:
  "[table_A, table_B, table_C] \<noteq> [] \<and>
   (\<exists>red. reduce_dataframes [table_A, table_B, table_C] = Some (Inr red) \<and>
      (\<exists>p. tables p = [table_A, table_B, table_C] \<and> merges p = 2 \<and>
           run_pairing p = Inr (merged red)) \<and>
      sum_list (map fst (trace red)) = 2 \<and>
      sorted_wrt (>) (map snd (trace red)) \<and>
      trace red \<noteq> [] \<and> last (map snd (trace red)) = 1)"
proof -
  have ne: "[table_A, table_B, table_C] \<noteq> []" by simp
  have d: "distinct (concat (map count_cols [table_A, table_B, table_C]))"
    by (simp add: table_A_def table_B_def table_C_def load_csv_file_def)
  obtain r where r: "reduce_dataframes [table_A, table_B, table_C] = Some r"
    and c: "case r of
              Inl e \<Rightarrow> e = MergeError \<and> \<not> distinct (concat (map count_cols [table_A, table_B, table_C]))
            | Inr red \<Rightarrow>
                (\<exists>p. tables p = [table_A, table_B, table_C] \<and>
                     merges p = length [table_A, table_B, table_C] - 1 \<and>
                     run_pairing p = Inr (merged red)) \<and>
                sum_list (map fst (trace red)) = length [table_A, table_B, table_C] - 1 \<and>
                sorted_wrt (>) (map snd (trace red)) \<and>
                (1 < length [table_A, table_B, table_C] \<longrightarrow>
                   (\<forall>s \<in> set (map snd (trace red)). s < length [table_A, table_B, table_C])) \<and>
                trace red \<noteq> [] \<and> last (map snd (trace red)) = 1"
    using reduce_dataframes_work[OF ne] by blast
  show ?thesis using r c d by (cases r) auto
qed

text \<open>
  C2 as stated fails when the labels clash. The files \<open>A\<close>, \<open>A_x\<close> and \<open>A\<close> give
  three sample tables with unique keys. The first round joins the first two into a table
  with the labels of \<open>A\<close> and \<open>A_x\<close>; in the second round the label of \<open>A\<close> is
  carried by both sides, the left one is renamed with the suffix \<open>_x\<close> and then
  equals the label of \<open>A_x\<close>, and the merge raises: the reduction ends with an error
  after one merge and returns no table.
\<close>

theorem reduce_dataframes_raises_on_label_clash:
  "[table_A, table_A_x, table_A] \<noteq> [] \<and>
   wf_table table_A \<and> wf_table table_A_x \<and>
   count_cols table_A = [''TCSL234rs_A''] \<and> count_cols table_A_x = [''TCSL234rs_A_x''] \<and>
   reduce_dataframes [table_A, table_A_x, table_A] = Some (Inl MergeError)"
proof -
  have "wf_table table_A" "wf_table table_A_x"
    by (simp_all add: table_A_def table_A_x_def load_csv_file_wf)
  moreover have "reduce_dataframes [table_A, table_A_x, table_A] = Some (Inl MergeError)"
    by code_simp
  ultimately show ?thesis by (simp add: table_A_def table_A_x_def load_csv_file_def)
qed

text \<open>
  C4, as amended. Independence of the order of merging. For every list of tables with
  unique keys whose count labels are pairwise distinct, every pairing sequence over the
  tables, taken in any order, returns a table, so does the engine's own reduction, and
  the two tables have the same content: the same keys, the same columns and the same
  value in every cell, up to the order of rows and columns.
\<close>

theorem merge_order_independent:
  assumes "wf_samples dfs" "mset (tables p) = mset dfs"
  shows "\<exists>m red. run_pairing p = Inr m \<and> reduce_dataframes dfs = Some (Inr red) \<and>
           same_content m (merged red)"
proof -
  have wp: "wf_samples (tables p)" using assms(2,1) by (rule wf_samples_mset)
  have sets: "set (tables p) = set dfs" using assms(2) by (rule mset_eq_setD)
  have ne: "dfs \<noteq> []" using assms(2) tables_nonempty[of p] by auto
  obtain m where m: "run_pairing p = Inr m" "wf_table m"
    "count_cols m = concat (map count_cols (tables p))"
    "table_keys m = all_keys (tables p)" "table_cells m = joined_cells (tables p)"
    using run_pairing_result[OF wp] by blast
  obtain red where red: "reduce_dataframes dfs = Some (Inr red)" "wf_table (merged red)"
    "count_cols (merged red) = concat (map count_cols dfs)"
    "table_keys (merged red) = all_keys dfs" "table_cells (merged red) = joined_cells dfs"
    using reduce_dataframes_samples[OF assms(1) ne] by blast
  have keys: "all_keys (tables p) = all_keys dfs" by (simp add: all_keys_def sets)
  have "set (map fst (rows m)) = set (map fst (rows (merged red)))"
    using m(4) red(4) keys by (simp add: table_keys_def)
  moreover have "distinct (map fst (rows m))" "distinct (map fst (rows (merged red)))"
    using m(2) red(2) by (simp_all add: wf_table_def)
  ultimately have "mset (map fst (rows m)) = mset (map fst (rows (merged red)))"
    using set_eq_iff_mset_eq_distinct[of "map fst (rows m)" "map fst (rows (merged red))"]
    by blast
  moreover have "mset (count_cols m) = mset (count_cols (merged red))"
    unfolding m(3) red(3) by (rule mset_concat_map_cong[OF assms(2)])
  moreover have "table_cells m = table_cells (merged red)"
    unfolding m(5) red(5) by (simp add: joined_cells_def keys sets)
  ultimately have "same_content m (merged red)" by (simp add: same_content_def)
  then show ?thesis using m(1) red(1) by blast
qed

theorem merge_order_independent_witness:
  "wf_samples [table_A, table_B, table_C] \<and>
   mset (tables (Merge (Table table_C) (Merge (Table table_A) (Table table_B)))) =
     mset [table_A, table_B, table_C] \<and>
   (\<exists>m red. run_pairing (Merge (Table table_C) (Merge (Table table_A) (Table table_B))) = Inr m \<and>
      reduce_dataframes [table_A, table_B, table_C] = Some (Inr red) \<and> same_content m (merged red))"
proof -
  have w: "wf_samples [table_A, table_B, table_C]"
    using load_csv_file_samples[of "[''A'', ''B'', ''C'']" example_files]
    by (simp add: table_A_def table_B_def table_C_def)
  have p: "mset (tables (Merge (Table table_C) (Merge (Table table_A) (Table table_B)))) =
     mset [table_A, table_B, table_C]" by simp
  show ?thesis using w p merge_order_independent[OF w p] by blast
qed

text \<open>
  C4 as stated fails when a file is named twice. For the files \<open>A\<close>, \<open>A\<close> and
  \<open>A_x\<close> every table has unique keys; the engine joins the first two and then the
  third, which gives the labels \<open>A_x_x\<close>, \<open>A_y\<close>, \<open>A_x_y\<close> (after the prefix), while
  joining the last two first gives \<open>A_x\<close>, \<open>A_y\<close>, \<open>A_x\<close>: both runs return a table,
  and the tables do not have the same columns.
\<close>

theorem merge_order_dependent_repeated_label:
  "wf_table table_A \<and> wf_table table_A_x \<and>
   mset (tables (Merge (Table table_A) (Merge (Table table_A) (Table table_A_x)))) =
     mset [table_A, table_A, table_A_x] \<and>
   run_pairing (Merge (Table table_A) (Merge (Table table_A) (Table table_A_x))) = Inr other_AAAx \<and>
   reduce_dataframes [table_A, table_A, table_A_x] =
     Some (Inr \<lparr> merged = engine_AAAx, rounds = 1, trace = [(1, 2), (1, 1)] \<rparr>) \<and>
   \<not> same_content other_AAAx engine_AAAx"
proof -
  have "wf_table table_A" "wf_table table_A_x"
    by (simp_all add: table_A_def table_A_x_def load_csv_file_wf)
  moreover have "run_pairing (Merge (Table table_A) (Merge (Table table_A) (Table table_A_x))) = Inr other_AAAx"
    by code_simp
  moreover have "reduce_dataframes [table_A, table_A, table_A_x] =
     Some (Inr \<lparr> merged = engine_AAAx, rounds = 1, trace = [(1, 2), (1, 1)] \<rparr>)"
    by code_simp
  moreover have "\<not> same_content other_AAAx engine_AAAx"
  proof
    assume "same_content other_AAAx engine_AAAx"
    then have "mset (count_cols other_AAAx) = mset (count_cols engine_AAAx)"
      by (simp add: same_content_def)
    then have "set (count_cols other_AAAx) = set (count_cols engine_AAAx)"
      by (rule mset_eq_setD)
    moreover have "''TCSL234rs_A_x_x'' \<in> set (count_cols engine_AAAx)"
      by (simp add: engine_AAAx_def)
    ultimately have "''TCSL234rs_A_x_x'' \<in> set (count_cols other_AAAx)" by simp
    then show False by (simp add: other_AAAx_def)
  qed
  ultimately show ?thesis by simp
qed



text \<open>
  C6. The table \<open>main\<close> returns. Its rows are the rows of the joined table with every
  unset cell replaced by 0 and every other cell kept, all of them integers; in every row
  \<open>total\<close> is the sum of the count cells and \<open>n_samples\<close> the number of count
  cells above 0; and the rows are in descending order of \<open>total\<close>.
\<close>

theorem finalizer_postcondition:
  assumes "main read_csv file_names min_merge_count = Some (Inr out)"
  shows "\<exists>red. reduce_dataframes (map (load_csv_file read_csv) file_names) = Some (Inr red) \<and>
           sample_cols out = count_cols (merged red) \<and>
           mset (map (\<lambda>r. (row_key r, row_cells r)) (final_rows out)) =
             mset (map (\<lambda>r. (fst r, fillna0 (snd r))) (rows (merged red))) \<and>
           (\<forall>r \<in> set (final_rows out).
              row_total r = sum_list (row_cells r) \<and>
              row_n_samples r = int (length (filter (\<lambda>v. 0 < v) (row_cells r)))) \<and>
           sorted_wrt (\<lambda>a b. row_total a \<ge> row_total b) (final_rows out)"
proof -
  obtain red where red: "reduce_dataframes (map (load_csv_file read_csv) file_names) = Some (Inr red)"
    and out: "out = finalize (merged red)"
    using assms by (auto simp: main_def Let_def split: option.splits sum.splits)
  show ?thesis using red finalize_rows[of "merged red"] unfolding out by blast
qed

theorem finalizer_postcondition_witness:
  "main example_files [''A'', ''B''] 5 = Some (Inr example_out) \<and>
   (\<exists>red. reduce_dataframes (map (load_csv_file example_files) [''A'', ''B'']) = Some (Inr red) \<and>
      sample_cols example_out = count_cols (merged red) \<and>
      mset (map (\<lambda>r. (row_key r, row_cells r)) (final_rows example_out)) =
        mset (map (\<lambda>r. (fst r, fillna0 (snd r))) (rows (merged red))) \<and>
      (\<forall>r \<in> set (final_rows example_out).
         row_total r = sum_list (row_cells r) \<and>
         row_n_samples r = int (length (filter (\<lambda>v. 0 < v) (row_cells r)))) \<and>
      sorted_wrt (\<lambda>a b. row_total a \<ge> row_total b) (final_rows example_out))"
proof -
  have m: "main example_files [''A'', ''B''] 5 = Some (Inr example_out)" by code_simp
  show ?thesis using m finalizer_postcondition[OF m] by blast
qed

text \<open>
  C7. The minimum merge count does not interfere. Two runs of \<open>main\<close> on the same files
  with any two values of the threshold return the same result: the threshold filters no
  row.
\<close>

theorem min_merge_count_unused:
  "main read_csv file_names m1 = main read_csv file_names m2"
  by (simp add: main_def)

section \<open>The decoder: properties\<close>




text \<open>
  C3, as amended. The decoder on a read the pattern accepts. For every sequence that the
  pattern, with one of the six sublibrary literals, matches at its start within the
  budget of 8 errors, \<open>process_bc_seq_line\<close> returns a populated record made from a
  match within the budget: exactly one of the six sublibrary groups of the match is not
  \<open>None\<close>, its text is \<open>sl_o\<close> and its number, one of 90, 30, 31, 34, 60 and 63, is
  \<open>sl_num\<close>; the four barcode fields are the texts the groups captured, \<open>count\<close> is the
  weight, and no key field is null. The lengths of the captured \<open>itam_bc_o\<close>,
  \<open>itam_umi_o\<close>, \<open>costim_bc_o\<close> and \<open>costim_umi_o\<close> differ from 9, 15, 9 and 15 by at
  most 8 in all: an insertion or deletion within a group changes the length of what it
  captures.
\<close>

theorem decoder_match_postcondition:
  assumes "sl \<in> set SL_SEQS" "fuzzy_match sl seq_str caps0"
  shows "\<exists>sl' caps gd.
           sl' \<in> set SL_SEQS \<and> fuzzy_match sl' seq_str caps \<and>
           match_groupdict compile_bc_regex seq_str = Some gd \<and>
           filter (\<lambda>g. starts_with ''sublibrary_'' (fst g) \<and> snd g \<noteq> None) gd =
             [(''sublibrary_'' @ fst sl', Some (caps ! 5))] \<and>
           process_bc_seq_line compile_bc_regex seq_str line_count =
             Inr (Some (decoded sl' caps line_count)) \<and>
           complete_record (decoded sl' caps line_count) \<and>
           sl_number sl' \<in> set [90, 30, 31, 34, 60, 63] \<and>
           \<bar>int (length (caps ! 1)) - 9\<bar> + \<bar>int (length (caps ! 2)) - 15\<bar> +
           \<bar>int (length (caps ! 4)) - 9\<bar> + \<bar>int (length (caps ! 6)) - 15\<bar> \<le> 8"
proof -
  have "bc_match seq_str \<noteq> None" using assms by (rule bc_match_complete)
  then obtain sl' caps where m: "bc_match seq_str = Some (sl', caps)" by auto
  have s: "sl' \<in> set SL_SEQS" "fuzzy_match sl' seq_str caps" "length caps = 8"
    using bc_match_sound[OF m] by simp_all
  have gd: "match_groupdict compile_bc_regex seq_str = Some (groupdict_of (sl', caps))"
    using m by (simp add: compile_bc_regex_def)
  have one: "filter (\<lambda>g. starts_with ''sublibrary_'' (fst g) \<and> snd g \<noteq> None) (groupdict_of (sl', caps)) =
             [(''sublibrary_'' @ fst sl', Some (caps ! 5))]"
    using s(1,3) by (rule one_sublibrary)
  have p: "process_bc_seq_line compile_bc_regex seq_str line_count =
             Inr (Some (decoded sl' caps line_count))"
    using m by (simp add: process_compiled)
  from s(2) obtain k where k: "k \<le> MAX_MATCH_DIST" "seg_aligned (segments (snd sl')) caps k"
    unfolding fuzzy_match_def by blast
  have "\<bar>int (length (caps ! 1)) - 9\<bar> + \<bar>int (length (caps ! 2)) - 15\<bar> +
        \<bar>int (length (caps ! 4)) - 9\<bar> + \<bar>int (length (caps ! 6)) - 15\<bar> \<le> int k"
    using k(2) by (rule field_deviation)
  moreover have "int k \<le> 8" using k(1) by (simp add: MAX_MATCH_DIST_def)
  ultimately have dev: "\<bar>int (length (caps ! 1)) - 9\<bar> + \<bar>int (length (caps ! 2)) - 15\<bar> +
        \<bar>int (length (caps ! 4)) - 9\<bar> + \<bar>int (length (caps ! 6)) - 15\<bar> \<le> 8"
    by linarith
  show ?thesis
    using s(1,2) gd one p decoded_complete[of sl' caps line_count] sl_number_ids[OF s(1)] dev
    by blast
qed

theorem decoder_match_postcondition_witness:
  "(''63'', ''GGCGGAAGTCCTCGT'') \<in> set SL_SEQS \<and>
   fuzzy_match (''63'', ''GGCGGAAGTCCTCGT'') seq63_err caps63_err \<and>
   (\<exists>sl' caps gd.
      sl' \<in> set SL_SEQS \<and> fuzzy_match sl' seq63_err caps \<and>
      match_groupdict compile_bc_regex seq63_err = Some gd \<and>
      filter (\<lambda>g. starts_with ''sublibrary_'' (fst g) \<and> snd g \<noteq> None) gd =
        [(''sublibrary_'' @ fst sl', Some (caps ! 5))] \<and>
      process_bc_seq_line compile_bc_regex seq63_err 7 = Inr (Some (decoded sl' caps 7)) \<and>
      complete_record (decoded sl' caps 7) \<and>
      sl_number sl' \<in> set [90, 30, 31, 34, 60, 63] \<and>
      \<bar>int (length (caps ! 1)) - 9\<bar> + \<bar>int (length (caps ! 2)) - 15\<bar> +
      \<bar>int (length (caps ! 4)) - 9\<bar> + \<bar>int (length (caps ! 6)) - 15\<bar> \<le> 8)"
proof -
  have a: "(''63'', ''GGCGGAAGTCCTCGT'') \<in> set SL_SEQS" by (simp add: SL_SEQS_def)
  have "bc_match seq63_err = Some ((''63'', ''GGCGGAAGTCCTCGT''), caps63_err)" by code_simp
  then have b: "fuzzy_match (''63'', ''GGCGGAAGTCCTCGT'') seq63_err caps63_err"
    using bc_match_sound by blast
  show ?thesis using a b decoder_match_postcondition[OF a b, of 7] by blast
qed

text \<open>
  C3 as stated fails for a read with deletions inside a group. \<open>seqX\<close> has 75
  characters where the pattern of sublibrary 90 has 83 atoms (every other sublibrary has
  92), so a match within the budget consists of eight deletions and nothing else; its
  eight \<open>X\<close> can only stand for the eight \<open>.\<close> of the two ITAM groups, three of them in
  \<open>itam_bc\<close>. The pattern matches, the decoder returns a populated record, and
  \<open>itam_bc_o\<close> has 3 characters and \<open>itam_umi_o\<close> 13. This does not depend on the
  search: every match of the pattern on \<open>seqX\<close> within the budget has these pieces.
\<close>

theorem captured_lengths_differ:
  "(''90'', ''GGTTCT'') \<in> set SL_SEQS \<and>
   fuzzy_match (''90'', ''GGTTCT'') seqX capsX \<and>
   process_bc_seq_line compile_bc_regex seqX 1 = Inr (Some (decoded (''90'', ''GGTTCT'') capsX 1)) \<and>
   dict_get (decoded (''90'', ''GGTTCT'') capsX 1) ''itam_bc_o'' = PyStr ''XXX'' \<and>
   dict_get (decoded (''90'', ''GGTTCT'') capsX 1) ''itam_umi_o'' = PyStr ''XGGXTCXGGXTCX'' \<and>
   \<not> (\<exists>sl caps. sl \<in> set SL_SEQS \<and> fuzzy_match sl seqX caps \<and> caps \<noteq> capsX)"
proof -
  have a: "(''90'', ''GGTTCT'') \<in> set SL_SEQS" by (simp add: SL_SEQS_def)
  have m: "bc_match seqX = Some ((''90'', ''GGTTCT''), capsX)" by code_simp
  then have b: "fuzzy_match (''90'', ''GGTTCT'') seqX capsX"
    using bc_match_sound by blast
  have p: "process_bc_seq_line compile_bc_regex seqX 1 = Inr (Some (decoded (''90'', ''GGTTCT'') capsX 1))"
    using m by (simp add: process_compiled)
  have d: "dict_get (decoded (''90'', ''GGTTCT'') capsX 1) ''itam_bc_o'' = PyStr ''XXX''"
    "dict_get (decoded (''90'', ''GGTTCT'') capsX 1) ''itam_umi_o'' = PyStr ''XGGXTCXGGXTCX''"
    by (simp_all add: decoded_def capsX_def dict_get_def)
  have all: "all_fuzzy_matches ''GGTTCT'' seqX = [capsX]"
    "all_fuzzy_matches ''GCGCCACTGCACCTA'' seqX = []"
    "all_fuzzy_matches ''TTGGCTGGGAGAGCG'' seqX = []"
    "all_fuzzy_matches ''CCACGGCCTGGAACA'' seqX = []"
    "all_fuzzy_matches ''CGTGACGTCGGGAGT'' seqX = []"
    "all_fuzzy_matches ''GGCGGAAGTCCTCGT'' seqX = []"
    by code_simp+
  have u: "caps = capsX" if "sl \<in> set SL_SEQS" "fuzzy_match sl seqX caps" for sl caps
  proof -
    have "caps \<in> set (all_fuzzy_matches (snd sl) seqX)" using that(2) by (rule fuzzy_match_listed)
    moreover have "snd sl \<in> set (map snd SL_SEQS)" using that(1) by simp
    ultimately show ?thesis using all by (auto simp: SL_SEQS_def)
  qed
  show ?thesis using a b p d u by blast
qed

text \<open>
  C8. The warning for a line without a weight. The loop resets \<open>no_counts\<close> to \<open>False\<close>
  on every line with a weight, so the warning is printed again for the next line
  without one: a read without weight, a weighted read and another read without weight
  give two warnings in a run that ends without error.
\<close>

theorem warning_repeats_after_weighted_line:
  "run_stderr (decoder_main [seq90, ''5 '' @ seq90, seq90]) = [warning, warning] \<and>
   run_error (decoder_main [seq90, ''5 '' @ seq90, seq90]) = None"
  by code_simp

text \<open>
  C9. Rows of the table. When the run writes its table, the columns are \<open>count\<close> and
  the six key columns; every row has a value that is not null in each of them, its key is
  the key of a populated record of the loop and its count the sum of the counts of the
  populated records of that key. A record that is not populated is the null record of an
  unmatched line; its key is the key of no row, and its count is tallied in
  \<open>unmatched_counts\<close>.
\<close>

theorem table_rows_populated:
  assumes "run_stdout (decoder_main lines) = Some df"
  shows "frame_cols df = [''count'', ''itam_bc_o'', ''itam_umi_o'', ''costim_bc_o'',
                          ''costim_umi_o'', ''sl_o'', ''sl_num''] \<and>
         (\<forall>row \<in> set (frame_rows df).
            length row = 7 \<and> PyNone \<notin> set row \<and>
            (\<exists>d \<in> set (decoder_records lines).
               complete_record d \<and> tl row = record_key d \<and>
               hd row = PyInt (sum_list (map count_of
                          (filter (\<lambda>e. complete_record e \<and> record_key e = record_key d)
                                  (decoder_records lines)))))) \<and>
         (\<forall>d \<in> set (decoder_records lines).
            \<not> complete_record d \<longrightarrow>
              d = null_record (count_of d) \<and>
              (\<forall>row \<in> set (frame_rows df). tl row \<noteq> record_key d)) \<and>
         stat (run_stats (decoder_main lines)) ''unmatched_counts'' =
           sum_list (map count_of (filter (\<lambda>d. \<not> complete_record d) (decoder_records lines)))"
proof -
  have t: "make_table False (decoder_records lines) = Inr df"
    and recs: "\<forall>d \<in> set (decoder_records lines).
            (\<exists>sl caps n. sl \<in> set SL_SEQS \<and> d = decoded sl caps n) \<or> (\<exists>n. d = null_record n)"
    and un: "stat (run_stats (decoder_main lines)) ''unmatched_counts'' =
           sum_list (map count_of (filter (\<lambda>d. \<not> complete_record d) (decoder_records lines)))"
    using decoder_main_tallied[OF assms] by simp_all
  have cols: "frame_cols df = [''count'', ''itam_bc_o'', ''itam_umi_o'', ''costim_bc_o'',
                          ''costim_umi_o'', ''sl_o'', ''sl_num'']"
    using make_table_keys_distinct[OF t] by (simp add: key_cols_def)
  have rows: "length row = 7 \<and> PyNone \<notin> set row \<and>
            (\<exists>d \<in> set (decoder_records lines).
               complete_record d \<and> tl row = record_key d \<and>
               hd row = PyInt (sum_list (map count_of
                          (filter (\<lambda>e. complete_record e \<and> record_key e = record_key d)
                                  (decoder_records lines)))))"
    if row: "row \<in> set (frame_rows df)" for row
  proof -
    obtain d where d: "d \<in> set (decoder_records lines)" "complete_record d"
      "row = PyInt (sum_list (map count_of
                (filter (\<lambda>e. complete_record e \<and> record_key e = record_key d)
                   (decoder_records lines)))) # record_key d"
      using make_table_rows[OF t row] by blast
    have "length (record_key d) = 6" by (simp add: record_key_def key_cols_def)
    moreover have "PyNone \<notin> set (record_key d)"
      using d(2) by (simp add: complete_record_def record_key_def)
    ultimately show ?thesis using d by auto
  qed
  have nulls: "d = null_record (count_of d) \<and> (\<forall>row \<in> set (frame_rows df). tl row \<noteq> record_key d)"
    if d: "d \<in> set (decoder_records lines)" and inc: "\<not> complete_record d" for d
  proof -
    have "(\<exists>sl caps n. sl \<in> set SL_SEQS \<and> d = decoded sl caps n) \<or> (\<exists>n. d = null_record n)"
      using recs d by (rule bspec)
    moreover have "\<not> (\<exists>sl caps n. sl \<in> set SL_SEQS \<and> d = decoded sl caps n)"
      using inc decoded_complete by auto
    ultimately have "\<exists>n. d = null_record n" by blast
    then have 1: "d = null_record (count_of d)" by (auto simp: null_record_count)
    have k: "PyNone \<in> set (record_key d)"
      using inc by (simp add: complete_record_def record_key_def)
    have "tl row \<noteq> record_key d" if row: "row \<in> set (frame_rows df)" for row
    proof
      assume e: "tl row = record_key d"
      have "PyNone \<notin> set row" using rows[OF row] by simp
      then have "PyNone \<notin> set (tl row)" by (cases row) auto
      then show False using k e by simp
    qed
    then show ?thesis using 1 by blast
  qed
  show ?thesis using cols rows nulls un by blast
qed

theorem table_rows_populated_witness:
  "\<exists>df. run_stdout (decoder_main example_lines) = Some df \<and>
      frame_cols df = [''count'', ''itam_bc_o'', ''itam_umi_o'', ''costim_bc_o'',
                       ''costim_umi_o'', ''sl_o'', ''sl_num''] \<and>
      (\<forall>row \<in> set (frame_rows df).
         length row = 7 \<and> PyNone \<notin> set row \<and>
         (\<exists>d \<in> set (decoder_records example_lines).
            complete_record d \<and> tl row = record_key d \<and>
            hd row = PyInt (sum_list (map count_of
                       (filter (\<lambda>e. complete_record e \<and> record_key e = record_key d)
                               (decoder_records example_lines)))))) \<and>
      (\<forall>d \<in> set (decoder_records example_lines).
         \<not> complete_record d \<longrightarrow>
           d = null_record (count_of d) \<and>
           (\<forall>row \<in> set (frame_rows df). tl row \<noteq> record_key d)) \<and>
      stat (run_stats (decoder_main example_lines)) ''unmatched_counts'' =
        sum_list (map count_of (filter (\<lambda>d. \<not> complete_record d) (decoder_records example_lines))) \<and>
      length (frame_rows df) = 2 \<and>
      length (filter (\<lambda>d. \<not> complete_record d) (decoder_records example_lines)) = 1"
proof -
  have m: "run_stdout (decoder_main example_lines) = Some example_table" by code_simp
  have n: "length (frame_rows example_table) = 2" by (simp add: example_table_def)
  have u: "length (filter (\<lambda>d. \<not> complete_record d) (decoder_records example_lines)) = 1"
    by code_simp
  show ?thesis using m n u table_rows_populated[OF m] by blast
qed

text \<open>
  C10. No input lines. The run on an empty input ends with the \<open>KeyError\<close> of the
  grouping, for the first grouping column, the table of no records having no columns;
  nothing is written to the output, the report is not printed, and the loop has printed
  no message.
\<close>

theorem decoder_empty_input_aborts:
  "run_error (decoder_main []) = Some (KeyError ''itam_bc_o'') \<and>
   run_stdout (decoder_main []) = None \<and> run_report (decoder_main []) = None \<and>
   run_stderr (decoder_main []) = []"
  by code_simp

end
